theory Spec2Isabelle
  imports Main "HOL-Library.Word" "HOL-Library.Monad_Syntax"
begin

unbundle bit_operations_syntax

section \<open>Constants and data of hid-rmi.c\<close>

type_synonym u8 = "8 word"
type_synonym u16 = "16 word"
type_synonym u32 = "32 word"
type_synonym ulong = "64 word"

definition RMI_MOUSE_REPORT_ID :: u8 where "RMI_MOUSE_REPORT_ID = 0x01"
definition RMI_WRITE_REPORT_ID :: u8 where "RMI_WRITE_REPORT_ID = 0x09"
definition RMI_READ_ADDR_REPORT_ID :: u8 where "RMI_READ_ADDR_REPORT_ID = 0x0a"
definition RMI_READ_DATA_REPORT_ID :: u8 where "RMI_READ_DATA_REPORT_ID = 0x0b"
definition RMI_ATTN_REPORT_ID :: u8 where "RMI_ATTN_REPORT_ID = 0x0c"
definition RMI_SET_RMI_MODE_REPORT_ID :: u8 where "RMI_SET_RMI_MODE_REPORT_ID = 0x0f"

text \<open>
  The flag macros are defined as \<open>BIT(n)\<close> and then handed to \<open>set_bit\<close>, \<open>clear_bit\<close>
  and \<open>test_bit\<close>, which take a bit number: the flags live in bits 1, 2 and 4 of
  \<open>data->flags\<close>. The model keeps that.
\<close>

definition BIT :: "nat \<Rightarrow> nat" where "BIT n = push_bit n 1"
definition RMI_READ_REQUEST_PENDING :: nat where "RMI_READ_REQUEST_PENDING = BIT 0"
definition RMI_READ_DATA_PENDING :: nat where "RMI_READ_DATA_PENDING = BIT 1"
definition RMI_STARTED :: nat where "RMI_STARTED = BIT 2"

definition RMI_MODE_ATTN_REPORTS :: u8 where "RMI_MODE_ATTN_REPORTS = 1"

definition EAGAIN :: int where "EAGAIN = 11"

text \<open>\<open>struct rmi_function\<close>. The field \<open>page\<close> is named \<open>f_page\<close> here.\<close>

record rmi_function =
  f_page :: nat
  query_base_addr :: u16
  command_base_addr :: u16
  control_base_addr :: u16
  data_base_addr :: u16
  interrupt_base :: nat
  interrupt_count :: nat
  report_size :: nat
  irq_mask :: ulong

text \<open>The calls the driver makes on its \<open>struct input_dev\<close>, kept as a log.\<close>

datatype abs_code =
  ABS_MT_POSITION_X | ABS_MT_POSITION_Y | ABS_MT_ORIENTATION
  | ABS_MT_PRESSURE | ABS_MT_TOUCH_MAJOR | ABS_MT_TOUCH_MINOR

datatype input_ev =
  MtSlot int
  | MtReportSlotState bool
  | EvAbs abs_code int
  | EvKey nat bool
  | MtSyncFrame
  | InputSync

text \<open>
  \<open>struct rmi_data\<close>. \<open>rmi_probe\<close> allocates \<open>writeReport\<close> and \<open>readReport\<close> as one block of
  \<open>output_report_size + input_report_size\<close> bytes, \<open>readReport\<close> starting
  \<open>output_report_size\<close> bytes into it; \<open>report_buf\<close> is that block. The mutex and the wait
  queue have no state of their own in a sequential model. \<open>input\<close> is the log of events
  sent to the input device, oldest first; \<open>reset_work\<close> says whether the work item is
  queued.
\<close>

record rmi_data =
  page :: int
  report_buf :: "u8 list"
  input_report_size :: int
  output_report_size :: int
  flags :: ulong
  f11 :: rmi_function
  f30 :: rmi_function
  max_fingers :: nat
  max_x :: nat
  max_y :: nat
  x_size_mm :: nat
  y_size_mm :: nat
  gpio_led_count :: nat
  button_count :: nat
  button_mask :: ulong
  button_state_mask :: ulong
  input :: "input_ev list"
  reset_work :: bool

text \<open>
  The transport below the driver (\<open>struct hid_device\<close> and the HID core). \<open>hw_output n\<close> is
  what the n-th call of \<open>hid_hw_output_report\<close> returns, \<open>sent\<close> the reports handed to it
  so far; \<open>hw_raw_request\<close> and \<open>features\<close> are the same for \<open>hid_hw_raw_request\<close>.
  \<open>inbound\<close> is what happens at the reader's waits, in order: a wait either times out or
  a read-data report is delivered to \<open>rmi_read_data_event\<close>; once the list is used up
  nothing more arrives and every wait times out.
\<close>

datatype wait_result = Timeout | Delivery "u8 list"

record hid_device =
  hw_output :: "nat \<Rightarrow> int"
  sent :: "u8 list list"
  hw_raw_request :: "nat \<Rightarrow> int"
  features :: "u8 list list"
  inbound :: "wait_result list"

subsection \<open>Access to the report block\<close>

text \<open>
  An access outside the block is undefined in C; every function that touches the block
  returns \<open>None\<close> for it.
\<close>

definition writeReport_set :: "rmi_data \<Rightarrow> nat \<Rightarrow> u8 \<Rightarrow> rmi_data option" where
  "writeReport_set data i v =
     (if i < length (report_buf data)
      then Some (data\<lparr>report_buf := (report_buf data)[i := v]\<rparr>)
      else None)"

definition writeReport_bytes :: "rmi_data \<Rightarrow> u8 list option" where
  "writeReport_bytes data =
     (if nat (output_report_size data) \<le> length (report_buf data)
      then Some (take (nat (output_report_size data)) (report_buf data))
      else None)"

definition readReport_get :: "rmi_data \<Rightarrow> nat \<Rightarrow> u8 option" where
  "readReport_get data i =
     (let k = nat (output_report_size data) + i
      in if k < length (report_buf data) then Some (report_buf data ! k) else None)"

definition readReport_bytes :: "rmi_data \<Rightarrow> nat \<Rightarrow> nat \<Rightarrow> u8 list option" where
  "readReport_bytes data i n =
     (let k = nat (output_report_size data) + i
      in if k + n \<le> length (report_buf data)
         then Some (take n (drop k (report_buf data)))
         else None)"

definition readReport_memcpy :: "rmi_data \<Rightarrow> u8 list \<Rightarrow> nat \<Rightarrow> rmi_data option" where
  "readReport_memcpy data src n =
     (let k = nat (output_report_size data)
      in if k + n \<le> length (report_buf data) \<and> n \<le> length src
         then Some (data\<lparr>report_buf :=
                take k (report_buf data) @ take n src @ drop (k + n) (report_buf data)\<rparr>)
         else None)"

text \<open>\<open>memcpy(buf + off, src, n)\<close> with \<open>n = length src\<close> into the caller's buffer.\<close>

definition buf_memcpy :: "u8 list \<Rightarrow> nat \<Rightarrow> u8 list \<Rightarrow> u8 list option" where
  "buf_memcpy buf off src =
     (if off + length src \<le> length buf
      then Some (take off buf @ src @ drop (off + length src) buf)
      else None)"

subsection \<open>Register protocol engine\<close>

definition RMI_PAGE :: "u16 \<Rightarrow> u16" where
  "RMI_PAGE addr = drop_bit 8 addr AND 0xff"

definition hid_hw_output_report :: "hid_device \<Rightarrow> u8 list \<Rightarrow> int \<times> hid_device" where
  "hid_hw_output_report hdev report =
     (hw_output hdev (length (sent hdev)), hdev\<lparr>sent := sent hdev @ [report]\<rparr>)"

definition rmi_write_report :: "hid_device \<Rightarrow> u8 list \<Rightarrow> int \<times> hid_device" where
  "rmi_write_report hdev report =
     (let (ret, hdev') = hid_hw_output_report hdev report
      in if ret < 0 then (ret, hdev') else (ret, hdev'))"

definition rmi_set_page :: "hid_device \<Rightarrow> rmi_data \<Rightarrow> u8 \<Rightarrow> (int \<times> hid_device \<times> rmi_data) option" where
  "rmi_set_page hdev data pg = do {
     d1 \<leftarrow> writeReport_set data 0 RMI_WRITE_REPORT_ID;
     d2 \<leftarrow> writeReport_set d1 1 1;
     d3 \<leftarrow> writeReport_set d2 2 0xFF;
     d4 \<leftarrow> writeReport_set d3 4 pg;
     report \<leftarrow> writeReport_bytes d4;
     let (retval, hdev') = rmi_write_report hdev report;
     if retval \<noteq> output_report_size d4 then Some (retval, hdev', d4)
     else Some (0, hdev', d4\<lparr>page := uint pg\<rparr>)
   }"

text \<open>
  \<open>rmi_read_data_event\<close>: the delivery of a read-data report of \<open>size = length data\<close>
  bytes. It is refused when no read request is pending; otherwise the report is copied
  over \<open>readReport\<close>, cut to \<open>input_report_size\<close>, and the reader is woken.
\<close>

definition rmi_read_data_event :: "rmi_data \<Rightarrow> u8 list \<Rightarrow> (int \<times> rmi_data) option" where
  "rmi_read_data_event hdata data =
     (if \<not> bit (flags hdata) RMI_READ_REQUEST_PENDING then Some (0, hdata)
      else do {
        d1 \<leftarrow> readReport_memcpy hdata data
               (nat (min (int (length data)) (input_report_size hdata)));
        Some (1, d1\<lparr>flags := set_bit RMI_READ_DATA_PENDING (flags d1)\<rparr>)
      })"

text \<open>
  \<open>wait_event_timeout(data->wait, test_bit(RMI_READ_DATA_PENDING, &data->flags), 1 s)\<close>:
  it returns at once when the flag is already set; otherwise the next entries of the
  inbound script happen. The result says whether the condition holds (the C returns
  non-zero) and gives the script that is left.
\<close>

fun wait_event_timeout ::
  "wait_result list \<Rightarrow> rmi_data \<Rightarrow> (bool \<times> wait_result list \<times> rmi_data) option" where
  "wait_event_timeout [] data = Some (bit (flags data) RMI_READ_DATA_PENDING, [], data)"
| "wait_event_timeout (w # ws) data =
     (if bit (flags data) RMI_READ_DATA_PENDING then Some (True, w # ws, data)
      else case w of
        Timeout \<Rightarrow> Some (False, ws, data)
      | Delivery report \<Rightarrow>
          (case rmi_read_data_event data report of
             None \<Rightarrow> None
           | Some (r, data') \<Rightarrow> wait_event_timeout ws data'))"

text \<open>
  The \<open>while (bytes_read < len)\<close> loop of \<open>rmi_read_block\<close>. A timed-out wait sets
  \<open>ret = -EAGAIN\<close> and leaves the loop; otherwise \<open>readReport[1]\<close> is the chunk's byte count
  and \<open>min(read_input_count, bytes_needed)\<close> bytes from \<open>readReport[2]\<close> on are copied to
  \<open>buf + bytes_read\<close>.
\<close>

function read_block_while ::
  "int \<Rightarrow> hid_device \<Rightarrow> rmi_data \<Rightarrow> u8 list \<Rightarrow> int \<Rightarrow> int \<Rightarrow> int \<Rightarrow>
   (int \<times> u8 list \<times> hid_device \<times> rmi_data) option" where
  "read_block_while len hdev data buf ret bytes_read bytes_needed =
     (if bytes_read < len then
        (case wait_event_timeout (inbound hdev) data of
           None \<Rightarrow> None
         | Some (woken, ws, d1) \<Rightarrow>
             if \<not> woken then Some (- EAGAIN, buf, hdev\<lparr>inbound := ws\<rparr>, d1)
             else
               (case readReport_get d1 1 of
                  None \<Rightarrow> None
                | Some c \<Rightarrow>
                    (case readReport_bytes d1 2 (nat (min (uint c) bytes_needed)) of
                       None \<Rightarrow> None
                     | Some src \<Rightarrow>
                         (case buf_memcpy buf (nat bytes_read) src of
                            None \<Rightarrow> None
                          | Some buf' \<Rightarrow>
                              read_block_while len (hdev\<lparr>inbound := ws\<rparr>)
                                (d1\<lparr>flags := unset_bit RMI_READ_DATA_PENDING (flags d1)\<rparr>)
                                buf' ret (bytes_read + uint c) (bytes_needed - uint c)))))
      else Some (ret, buf, hdev, data))"
  by pat_completeness auto
termination
proof -
  have shorter: "wait_event_timeout ws d = Some (True, ws', d') \<Longrightarrow>
      length ws' \<le> length ws \<and> (\<not> bit (flags d) RMI_READ_DATA_PENDING \<longrightarrow> length ws' < length ws)"
    for ws ws' d d'
  proof (induction ws arbitrary: d)
    case Nil
    then show ?case by auto
  next
    case (Cons w ws)
    show ?case
    proof (cases "bit (flags d) RMI_READ_DATA_PENDING")
      case True
      with Cons.prems show ?thesis by simp
    next
      case False
      with Cons.prems Cons.IH show ?thesis
        by (cases w) (fastforce split: option.splits)+
    qed
  qed
  show ?thesis
    by (relation "measure (\<lambda>(len, hdev, data, buf, ret, bytes_read, bytes_needed).
          2 * length (inbound hdev) + (if bit (flags data) RMI_READ_DATA_PENDING then 1 else 0))")
       (auto simp: bit_unset_bit_iff dest!: shorter)
qed

declare read_block_while.simps [simp del]

text \<open>
  The \<open>for (retries = 5; retries > 0; retries--)\<close> loop, by the number of attempts left.
  A write that does not send \<open>output_report_size\<close> bytes clears the request flag and
  jumps to \<open>exit\<close> with the write's result; a completed wait loop with \<open>ret >= 0\<close> ends
  the loop with 0.
\<close>

fun read_block_retry ::
  "nat \<Rightarrow> hid_device \<Rightarrow> rmi_data \<Rightarrow> u16 \<Rightarrow> u8 list \<Rightarrow> int \<Rightarrow> int \<Rightarrow>
   (int \<times> u8 list \<times> hid_device \<times> rmi_data) option" where
  "read_block_retry 0 hdev data addr buf len ret = Some (ret, buf, hdev, data)"
| "read_block_retry (Suc retries) hdev data addr buf len ret = do {
     d0 \<leftarrow> writeReport_set data 0 RMI_READ_ADDR_REPORT_ID;
     d1 \<leftarrow> writeReport_set d0 1 0;
     d2 \<leftarrow> writeReport_set d1 2 (ucast (addr AND 0xFF));
     d3 \<leftarrow> writeReport_set d2 3 (ucast (drop_bit 8 addr AND 0xFF));
     d4 \<leftarrow> writeReport_set d3 4 (word_of_int (len AND 0xFF));
     d5 \<leftarrow> writeReport_set d4 5 (word_of_int (drop_bit 8 len AND 0xFF));
     let d6 = d5\<lparr>flags := set_bit RMI_READ_REQUEST_PENDING (flags d5)\<rparr>;
     report \<leftarrow> writeReport_bytes d6;
     let (r, hdev1) = rmi_write_report hdev report;
     if r \<noteq> output_report_size d6
     then Some (r, buf, hdev1, d6\<lparr>flags := unset_bit RMI_READ_REQUEST_PENDING (flags d6)\<rparr>)
     else do {
       (r2, buf2, hdev2, d7) \<leftarrow> read_block_while len hdev1 d6 buf r 0 len;
       if r2 \<ge> 0 then Some (0, buf2, hdev2, d7)
       else read_block_retry retries hdev2 d7 addr buf2 len r2
     }
   }"

text \<open>
  \<open>rmi_read_block\<close>. \<open>ret\<close> is not initialised in C when the page already matches; the
  loop assigns it before it is read, and the model starts it at 0. The code after the
  \<open>exit\<close> label clears the request flag on every path.
\<close>

definition rmi_read_block ::
  "hid_device \<Rightarrow> rmi_data \<Rightarrow> u16 \<Rightarrow> u8 list \<Rightarrow> int \<Rightarrow>
   (int \<times> u8 list \<times> hid_device \<times> rmi_data) option" where
  "rmi_read_block hdev data addr buf len = do {
     (ret, buf', hdev', data') \<leftarrow>
       (if uint (RMI_PAGE addr) \<noteq> page data then do {
          (ret, hdev1, d1) \<leftarrow> rmi_set_page hdev data (ucast (RMI_PAGE addr));
          if ret < 0 then Some (ret, buf, hdev1, d1)
          else read_block_retry 5 hdev1 d1 addr buf len ret
        }
        else read_block_retry 5 hdev data addr buf len 0);
     Some (ret, buf', hdev',
           data'\<lparr>flags := unset_bit RMI_READ_REQUEST_PENDING (flags data')\<rparr>)
   }"


subsection \<open>Attention report decoder\<close>

text \<open>
  The decoders get a pointer into the report and the number of bytes left. The model
  hands them the bytes from that pointer to the end of the report; \<open>peek\<close> is \<open>None\<close>
  for a read past the end of the provided bytes.
\<close>

definition peek :: "u8 list \<Rightarrow> nat \<Rightarrow> u8 option" where
  "peek data i = (if i < length data then Some (data ! i) else None)"

text \<open>
  \<open>rmi_f11_process_touch\<close>. The bytes are promoted to \<open>int\<close> before the shifts.
  \<open>hdata->max_y - y\<close> is computed in \<open>unsigned\<close> and stored in an \<open>int\<close>; with
  \<open>max_y < 2^16\<close> and \<open>y < 2^12\<close> that is the integer difference.
\<close>

definition rmi_f11_process_touch ::
  "rmi_data \<Rightarrow> int \<Rightarrow> u8 \<Rightarrow> u8 list \<Rightarrow> rmi_data option" where
  "rmi_f11_process_touch hdata slot finger_state touch_data =
     (let h1 = hdata\<lparr>input := input hdata @
                 [MtSlot slot, MtReportSlotState (finger_state = 0x01)]\<rparr>
      in if finger_state = 0x01 then do {
           t0 \<leftarrow> peek touch_data 0;
           t1 \<leftarrow> peek touch_data 1;
           t2 \<leftarrow> peek touch_data 2;
           t3 \<leftarrow> peek touch_data 3;
           t4 \<leftarrow> peek touch_data 4;
           let x = push_bit 4 (uint t0) OR (uint t2 AND 0x07);
           let y = push_bit 4 (uint t1) OR drop_bit 4 (uint t2);
           let wx = uint t3 AND 0x07;
           let wy = drop_bit 4 (uint t3);
           let wide = (if wx > wy then 1 else 0);
           let major = max wx wy;
           let minor = min wx wy;
           let z = uint t4;
           let y' = int (max_y hdata) - y;
           Some (h1\<lparr>input := input h1 @
                  [EvAbs ABS_MT_POSITION_X x, EvAbs ABS_MT_POSITION_Y y',
                   EvAbs ABS_MT_ORIENTATION wide, EvAbs ABS_MT_PRESSURE z,
                   EvAbs ABS_MT_TOUCH_MAJOR major, EvAbs ABS_MT_TOUCH_MINOR minor]\<rparr>)
         }
         else Some h1)"

text \<open>The finger loop of \<open>rmi_f11_input_event\<close>, by the number of fingers left; \<open>i\<close> counts up.\<close>

fun f11_finger_loop :: "nat \<Rightarrow> nat \<Rightarrow> rmi_data \<Rightarrow> u8 list \<Rightarrow> nat \<Rightarrow> rmi_data option" where
  "f11_finger_loop 0 i hdata data offset = Some hdata"
| "f11_finger_loop (Suc n) i hdata data offset = do {
     b \<leftarrow> peek data (drop_bit 2 i);
     let fs_bit_position = push_bit 1 (i AND 0x3);
     let finger_state = drop_bit fs_bit_position b AND 0x03;
     h \<leftarrow> rmi_f11_process_touch hdata (int i) finger_state (drop (offset + 5 * i) data);
     f11_finger_loop n (Suc i) h data offset
   }"

text \<open>
  \<open>rmi_f11_input_event\<close>; \<open>sz\<close> stands for the parameter \<open>size\<close>. It is an \<open>int\<close> and
  \<open>report_size\<close> an \<open>unsigned int\<close>: the comparison converts it to \<open>unsigned\<close>, which is
  \<open>sz mod 2^32\<close>.
\<close>

definition rmi_f11_input_event ::
  "rmi_data \<Rightarrow> u8 \<Rightarrow> u8 list \<Rightarrow> int \<Rightarrow> (int \<times> rmi_data) option" where
  "rmi_f11_input_event hdata irq data sz =
     (if sz mod 2 ^ 32 < int (report_size (f11 hdata)) then Some (0, hdata)
      else if ucast irq AND irq_mask (f11 hdata) = 0 then Some (0, hdata)
      else do {
        let offset = drop_bit 2 (max_fingers hdata) + 1;
        h \<leftarrow> f11_finger_loop (max_fingers hdata) 0 hdata data offset;
        Some (int (report_size (f11 hdata)), h\<lparr>input := input h @ [MtSyncFrame, InputSync]\<rparr>)
      })"

text \<open>The GPIO loop of \<open>rmi_f30_input_event\<close>; \<open>button\<close> counts the buttons reported so far.\<close>

fun f30_button_loop :: "nat \<Rightarrow> nat \<Rightarrow> nat \<Rightarrow> rmi_data \<Rightarrow> u8 list \<Rightarrow> rmi_data option" where
  "f30_button_loop 0 i button hdata data = Some hdata"
| "f30_button_loop (Suc n) i button hdata data =
     (if bit (button_mask hdata) i then do {
        b \<leftarrow> peek data (i div 8);
        let v = (drop_bit (i AND 0x07) b AND 1 \<noteq> 0);
        let v' = (if bit (button_state_mask hdata) i then \<not> v else v);
        f30_button_loop n (Suc i) (Suc button)
          (hdata\<lparr>input := input hdata @ [EvKey button v']\<rparr>) data
      }
      else f30_button_loop n (Suc i) button hdata data)"

definition rmi_f30_input_event ::
  "rmi_data \<Rightarrow> u8 \<Rightarrow> u8 list \<Rightarrow> int \<Rightarrow> (int \<times> rmi_data) option" where
  "rmi_f30_input_event hdata irq data sz =
     (if ucast irq AND irq_mask (f30 hdata) = 0 then Some (0, hdata)
      else do {
        h \<leftarrow> f30_button_loop (gpio_led_count hdata) 0 0 hdata data;
        Some (int (report_size (f30 hdata)), h)
      })"

text \<open>
  \<open>rmi_input_event\<close> on a report of \<open>length data\<close> bytes (\<open>sz\<close>, the parameter \<open>size\<close>).
  \<open>index\<close> is \<open>unsigned\<close>; \<open>size - index\<close> is handed on as an \<open>int\<close>. The warning about unknown interrupt
  sources only logs.
\<close>

definition rmi_input_event :: "rmi_data \<Rightarrow> u8 list \<Rightarrow> (int \<times> rmi_data) option" where
  "rmi_input_event hdata data =
     (if \<not> bit (flags hdata) RMI_STARTED then Some (0, hdata)
      else do {
        irq \<leftarrow> peek data 1;
        let sz = int (length data);
        if interrupt_base (f11 hdata) < interrupt_base (f30 hdata) then do {
          (n1, h1) \<leftarrow> rmi_f11_input_event hdata irq (drop 2 data) (sz - 2);
          let index = (2 + n1) mod 2 ^ 32;
          (n2, h2) \<leftarrow> rmi_f30_input_event h1 irq (drop (nat index) data) (sz - index);
          Some (1, h2)
        }
        else do {
          (n1, h1) \<leftarrow> rmi_f30_input_event hdata irq (drop 2 data) (sz - 2);
          let index = (2 + n1) mod 2 ^ 32;
          (n2, h2) \<leftarrow> rmi_f11_input_event h1 irq (drop (nat index) data) (sz - index);
          Some (1, h2)
        }
      })"

subsection \<open>Mode controller\<close>

text \<open>
  \<open>rmi_set_mode\<close> sends the two-byte feature report. \<open>schedule_work\<close> queues the work item
  unless it is queued already. \<open>rmi_reset_work\<close> is the work function; the kernel's worker
  takes a queued item off the queue and then calls it, which is \<open>run_reset_work\<close>.
\<close>

definition rmi_set_mode :: "hid_device \<Rightarrow> u8 \<Rightarrow> int \<times> hid_device" where
  "rmi_set_mode hdev mode =
     (let txbuf = [RMI_SET_RMI_MODE_REPORT_ID, mode];
          ret = hw_raw_request hdev (length (features hdev));
          hdev' = hdev\<lparr>features := features hdev @ [txbuf]\<rparr>
      in if ret < 0 then (ret, hdev') else (0, hdev'))"

definition rmi_reset_work :: "hid_device \<Rightarrow> hid_device" where
  "rmi_reset_work hdev = snd (rmi_set_mode hdev RMI_MODE_ATTN_REPORTS)"

definition rmi_schedule_reset :: "rmi_data \<Rightarrow> int \<times> rmi_data" where
  "rmi_schedule_reset hdata =
     (if reset_work hdata then (0, hdata) else (1, hdata\<lparr>reset_work := True\<rparr>))"

definition run_reset_work :: "hid_device \<Rightarrow> rmi_data \<Rightarrow> hid_device \<times> rmi_data" where
  "run_reset_work hdev hdata =
     (if reset_work hdata then (rmi_reset_work hdev, hdata\<lparr>reset_work := False\<rparr>)
      else (hdev, hdata))"

text \<open>\<open>rmi_raw_event\<close> on a report of \<open>size = length data\<close> bytes.\<close>

definition rmi_raw_event ::
  "hid_device \<Rightarrow> rmi_data \<Rightarrow> u8 list \<Rightarrow> (int \<times> hid_device \<times> rmi_data) option" where
  "rmi_raw_event hdev hdata data = do {
     report_id \<leftarrow> peek data 0;
     if report_id = RMI_READ_DATA_REPORT_ID then do {
       (r, h) \<leftarrow> rmi_read_data_event hdata data;
       Some (r, hdev, h)
     }
     else if report_id = RMI_ATTN_REPORT_ID then do {
       (r, h) \<leftarrow> rmi_input_event hdata data;
       Some (r, hdev, h)
     }
     else if report_id = RMI_MOUSE_REPORT_ID then do {
       b \<leftarrow> peek data 1;
       if b = 0 then Some (0, hdev, snd (rmi_schedule_reset hdata))
       else Some (0, hdev, hdata)
     }
     else Some (0, hdev, hdata)
   }"

subsection \<open>PDT scan\<close>

definition RMI4_MAX_PAGE :: nat where "RMI4_MAX_PAGE = 0xff"
definition RMI4_PAGE_SIZE :: u16 where "RMI4_PAGE_SIZE = 0x0100"
definition PDT_START_SCAN_LOCATION :: u16 where "PDT_START_SCAN_LOCATION = 0x00e9"
definition PDT_END_SCAN_LOCATION :: u16 where "PDT_END_SCAN_LOCATION = 0x0005"

definition RMI4_END_OF_PDT :: "u8 \<Rightarrow> bool" where
  "RMI4_END_OF_PDT n \<longleftrightarrow> n = 0x00 \<or> n = 0xff"

text \<open>
  \<open>struct pdt_entry\<close> is six packed bytes, filled by \<open>rmi_read_block\<close>; the model keeps the
  bytes and reads the fields off them. The bit fields of byte 4 are laid out from the
  least significant bit, as gcc does on the little-endian machines the driver runs on:
  \<open>interrupt_source_count\<close> is bits 0 to 2.
\<close>

definition pdt_query_base_addr :: "u8 list \<Rightarrow> u8" where
  "pdt_query_base_addr entry = entry ! 0"
definition pdt_command_base_addr :: "u8 list \<Rightarrow> u8" where
  "pdt_command_base_addr entry = entry ! 1"
definition pdt_control_base_addr :: "u8 list \<Rightarrow> u8" where
  "pdt_control_base_addr entry = entry ! 2"
definition pdt_data_base_addr :: "u8 list \<Rightarrow> u8" where
  "pdt_data_base_addr entry = entry ! 3"
definition pdt_interrupt_source_count :: "u8 list \<Rightarrow> u8" where
  "pdt_interrupt_source_count entry = entry ! 4 AND 0x07"
definition pdt_function_number :: "u8 list \<Rightarrow> u8" where
  "pdt_function_number entry = entry ! 5"

text \<open>
  \<open>GENMASK\<close> as compat.h defines it, in 32 bits with unsigned wrap-around. A shift by 32
  or more is undefined in C and 0 here.
\<close>

definition GENMASK :: "u32 \<Rightarrow> u32 \<Rightarrow> u32" where
  "GENMASK h l = push_bit (unat l) (push_bit (unat (h - l + 1)) 1 - 1)"

definition rmi_gen_mask :: "nat \<Rightarrow> nat \<Rightarrow> ulong" where
  "rmi_gen_mask irq_base irq_count =
     ucast (GENMASK (of_nat irq_count + of_nat irq_base - 1) (of_nat irq_base))"

definition rmi_register_function :: "rmi_data \<Rightarrow> u8 list \<Rightarrow> nat \<Rightarrow> nat \<Rightarrow> rmi_data" where
  "rmi_register_function data entry pg interrupt_count' =
     (let page_base = (push_bit 8 (of_nat pg) :: u16);
          fill = (\<lambda>f. f\<lparr>f_page := pg,
                    query_base_addr := page_base OR ucast (pdt_query_base_addr entry),
                    command_base_addr := page_base OR ucast (pdt_command_base_addr entry),
                    control_base_addr := page_base OR ucast (pdt_control_base_addr entry),
                    data_base_addr := page_base OR ucast (pdt_data_base_addr entry),
                    interrupt_base := interrupt_count',
                    interrupt_count := unat (pdt_interrupt_source_count entry),
                    irq_mask := rmi_gen_mask interrupt_count'
                                  (unat (pdt_interrupt_source_count entry))\<rparr>)
      in if pdt_function_number entry = 0x11 then data\<lparr>f11 := fill (f11 data)\<rparr>
         else if pdt_function_number entry = 0x30 then data\<lparr>f30 := fill (f30 data)\<rparr>
         else data)"

text \<open>
  The inner loop of \<open>rmi_scan_pdt\<close>: \<open>for (i = pdt_start; i >= pdt_end; i -= sizeof(entry))\<close>.
  The result carries \<open>retval\<close> (non-zero: the read failed and the scan is given up),
  \<open>page_has_function\<close> and the interrupt counter.
\<close>

function scan_page ::
  "hid_device \<Rightarrow> rmi_data \<Rightarrow> nat \<Rightarrow> int \<Rightarrow> int \<Rightarrow> u8 list \<Rightarrow> int \<Rightarrow> bool \<Rightarrow> nat \<Rightarrow>
   (int \<times> u8 list \<times> hid_device \<times> rmi_data \<times> bool \<times> nat) option" where
  "scan_page hdev data pg i pdt_end entry retval page_has_function interrupt =
     (if i \<ge> pdt_end then
        (case rmi_read_block hdev data (word_of_int i) entry 6 of
           None \<Rightarrow> None
         | Some (retval', entry', hdev', data') \<Rightarrow>
             if retval' \<noteq> 0
             then Some (retval', entry', hdev', data', page_has_function, interrupt)
             else if RMI4_END_OF_PDT (pdt_function_number entry')
             then Some (retval', entry', hdev', data', page_has_function, interrupt)
             else scan_page hdev' (rmi_register_function data' entry' pg interrupt) pg
                    (i - 6) pdt_end entry' retval' True
                    (interrupt + unat (pdt_interrupt_source_count entry')))
      else Some (retval, entry, hdev, data, page_has_function, interrupt))"
  by pat_completeness auto
termination
  by (relation "measure (\<lambda>(hdev, data, pg, i, pdt_end, entry, retval, has, interrupt).
        nat (i - pdt_end + 1))") auto

declare scan_page.simps [simp del]

text \<open>
  The outer loop: \<open>for (page = 0; page <= RMI4_MAX_PAGE; page++)\<close>. \<open>retval\<close> has no value
  in C before the first read; the inner loop reads at least once on every page, and the
  model starts it at 0. \<open>entry\<close> is the local \<open>struct pdt_entry\<close>, which keeps its bytes
  from one read to the next.
\<close>

function scan_pages ::
  "hid_device \<Rightarrow> rmi_data \<Rightarrow> nat \<Rightarrow> u8 list \<Rightarrow> nat \<Rightarrow> (int \<times> hid_device \<times> rmi_data) option" where
  "scan_pages hdev data pg entry interrupt =
     (if pg \<le> RMI4_MAX_PAGE then
        (let page_start = RMI4_PAGE_SIZE * of_nat pg;
             pdt_start = page_start + PDT_START_SCAN_LOCATION;
             pdt_end = page_start + PDT_END_SCAN_LOCATION
         in case scan_page hdev data pg (uint pdt_start) (uint pdt_end) entry 0 False interrupt of
              None \<Rightarrow> None
            | Some (retval, entry', hdev', data', page_has_function, interrupt') \<Rightarrow>
                if retval \<noteq> 0 then Some (retval, hdev', data')
                else if \<not> page_has_function then Some (0, hdev', data')
                else scan_pages hdev' data' (pg + 1) entry' interrupt')
      else Some (0, hdev, data))"
  by pat_completeness auto
termination
  by (relation "measure (\<lambda>(hdev, data, pg, entry, interrupt). Suc RMI4_MAX_PAGE - pg)") auto

declare scan_pages.simps [simp del]

definition rmi_scan_pdt :: "hid_device \<Rightarrow> rmi_data \<Rightarrow> (int \<times> hid_device \<times> rmi_data) option" where
  "rmi_scan_pdt hdev data = scan_pages hdev data 0 (replicate 6 0) 0"

subsection \<open>F11 population\<close>

text \<open>
  The kernel's rounding macros, used here on unsigned operands: \<open>DIV_ROUND_UP(n, d)\<close> is
  \<open>(n + d - 1) / d\<close> and \<open>DIV_ROUND_CLOSEST(x, divisor)\<close> is \<open>(x + divisor / 2) / divisor\<close>.
\<close>

definition DIV_ROUND_UP :: "nat \<Rightarrow> nat \<Rightarrow> nat" where
  "DIV_ROUND_UP n d = (n + d - 1) div d"




subsection \<open>Probe\<close>

text \<open>
  The device context as \<open>rmi_probe\<close> leaves it before the hardware is started: zeroed by
  \<open>devm_kzalloc\<close>, with the two report sizes taken from the bit sizes the HID descriptor
  gives for the attention and the write report, and one zeroed block for both reports.
\<close>

definition rmi_function_zero :: rmi_function where
  "rmi_function_zero =
     \<lparr>f_page = 0, query_base_addr = 0, command_base_addr = 0, control_base_addr = 0,
      data_base_addr = 0, interrupt_base = 0, interrupt_count = 0, report_size = 0,
      irq_mask = 0\<rparr>"

definition rmi_probe :: "nat \<Rightarrow> nat \<Rightarrow> rmi_data" where
  "rmi_probe attn_bits write_bits =
     (let isize = drop_bit 3 attn_bits + 1;
          osize = drop_bit 3 write_bits + 1
      in \<lparr>page = 0, report_buf = replicate (osize + isize) 0,
          input_report_size = int isize, output_report_size = int osize,
          flags = 0, f11 = rmi_function_zero, f30 = rmi_function_zero,
          max_fingers = 0, max_x = 0, max_y = 0, x_size_mm = 0, y_size_mm = 0,
          gpio_led_count = 0, button_count = 0, button_mask = 0, button_state_mask = 0,
          input = [], reset_work = False\<rparr>)"

text \<open>
  What \<open>rmi_probe\<close> establishes: both report sizes are a bit count shifted right by 3
  plus 1 for the report id, and the block has room for both reports.
\<close>

definition probed :: "rmi_data \<Rightarrow> bool" where
  "probed data \<longleftrightarrow>
     0 < output_report_size data \<and> 0 < input_report_size data \<and>
     length (report_buf data) = nat (output_report_size data) + nat (input_report_size data)"

section \<open>Vocabulary of the statements\<close>

text \<open>
  A delivered read-data report: byte 1 is its byte count, the payload follows from byte 2.
  It is well formed for a device when the count fits in the report and the report fits in
  the input report buffer.
\<close>

definition chunk_count :: "u8 list \<Rightarrow> nat" where
  "chunk_count report = unat (report ! 1)"

definition chunk_payload :: "u8 list \<Rightarrow> u8 list" where
  "chunk_payload report = take (chunk_count report) (drop 2 report)"

definition chunk_ok :: "rmi_data \<Rightarrow> u8 list \<Rightarrow> bool" where
  "chunk_ok data report \<longleftrightarrow>
     2 + chunk_count report \<le> length report \<and> int (length report) \<le> input_report_size data"

text \<open>
  \<open>read_data payload\<close> is the read-data report that carries \<open>payload\<close>: the report id, the
  byte count and the bytes.
\<close>

definition read_data :: "u8 list \<Rightarrow> u8 list" where
  "read_data payload = RMI_READ_DATA_REPORT_ID # of_nat (length payload) # payload"

text \<open>
  The report block after a read request for \<open>len\<close> bytes at \<open>addr\<close> was composed in
  \<open>writeReport\<close>.
\<close>

definition read_request_buf :: "u8 list \<Rightarrow> u16 \<Rightarrow> int \<Rightarrow> u8 list" where
  "read_request_buf rb addr len =
     rb[0 := RMI_READ_ADDR_REPORT_ID, 1 := 0, 2 := ucast (addr AND 0xFF),
        3 := ucast (drop_bit 8 addr AND 0xFF), 4 := word_of_int (len AND 0xFF),
        5 := word_of_int (drop_bit 8 len AND 0xFF)]"

text \<open>The device is between two reads: buffers as probed, no request and no data pending.\<close>

definition reader_idle :: "rmi_data \<Rightarrow> bool" where
  "reader_idle d \<longleftrightarrow> probed d \<and> 6 \<le> output_report_size d \<and>
     \<not> bit (flags d) RMI_READ_REQUEST_PENDING \<and> \<not> bit (flags d) RMI_READ_DATA_PENDING"

text \<open>
  The deliveries \<open>reps\<close> complete a read of \<open>len\<close> bytes: the last of them is the first to
  bring the total of the byte counts to \<open>len\<close> or more.
\<close>

definition chunks_complete :: "int \<Rightarrow> u8 list list \<Rightarrow> bool" where
  "chunks_complete len reps \<longleftrightarrow>
     int (sum_list (map chunk_count (butlast reps))) < len \<and>
     len \<le> int (sum_list (map chunk_count reps))"

text \<open>
  An attempt that fails: well-formed deliveries that stay short of the requested length,
  and then a wait that times out. \<open>attempt_script\<close> is what the transport does during such an
  attempt, \<open>partial_fill\<close> what the attempt leaves in the caller's buffer.
\<close>

definition attempt_script :: "u8 list list \<Rightarrow> wait_result list" where
  "attempt_script reps = map Delivery reps @ [Timeout]"

definition failed_attempt :: "rmi_data \<Rightarrow> int \<Rightarrow> u8 list list \<Rightarrow> bool" where
  "failed_attempt data len reps \<longleftrightarrow>
     (\<forall>r\<in>set reps. chunk_ok data r) \<and> int (sum_list (map chunk_count reps)) < len"

definition partial_fill :: "u8 list list \<Rightarrow> u8 list \<Rightarrow> u8 list" where
  "partial_fill reps buf =
     concat (map chunk_payload reps) @ drop (length (concat (map chunk_payload reps))) buf"

text \<open>
  The six bytes of a read request, and the report block after a page select was composed
  in \<open>writeReport\<close>.
\<close>

definition read_request :: "u16 \<Rightarrow> int \<Rightarrow> u8 list" where
  "read_request addr len =
     [RMI_READ_ADDR_REPORT_ID, 0, ucast (addr AND 0xFF), ucast (drop_bit 8 addr AND 0xFF),
      word_of_int (len AND 0xFF), word_of_int (drop_bit 8 len AND 0xFF)]"

definition set_page_buf :: "u8 list \<Rightarrow> u8 \<Rightarrow> u8 list" where
  "set_page_buf rb pg = rb[0 := RMI_WRITE_REPORT_ID, 1 := 1, 2 := 0xFF, 4 := pg]"

text \<open>
  The read requests of a call: the reports that start with the read-address report id
  among those the call added to the log of sent reports.
\<close>

definition is_read_request :: "u8 list \<Rightarrow> bool" where
  "is_read_request q \<longleftrightarrow> take 1 q = [RMI_READ_ADDR_REPORT_ID]"

definition read_attempts :: "hid_device \<Rightarrow> hid_device \<Rightarrow> nat" where
  "read_attempts hdev hdev' =
     length (filter is_read_request (drop (length (sent hdev)) (sent hdev')))"

text \<open>The page-select report that precedes the read requests when the page changes.\<close>

definition page_select :: "rmi_data \<Rightarrow> u16 \<Rightarrow> u8 list list" where
  "page_select d addr =
     (if uint (RMI_PAGE addr) \<noteq> page d
      then [take (nat (output_report_size d)) (set_page_buf (report_buf d) (ucast (RMI_PAGE addr)))]
      else [])"

text \<open>What a caller sees of a read: the return value, the buffer and the script left.\<close>

definition read_result ::
  "(int \<times> u8 list \<times> hid_device \<times> rmi_data) option \<Rightarrow> (int \<times> u8 list \<times> wait_result list) option" where
  "read_result res = map_option (\<lambda>(ret, buf, hdev, data). (ret, buf, inbound hdev)) res"

text \<open>
  The addresses the driver asked for: of every read request in the log of sent reports,
  the 16-bit address in bytes 2 and 3.
\<close>

definition request_addr :: "u8 list \<Rightarrow> nat" where
  "request_addr q = unat (q ! 2) + 256 * unat (q ! 3)"

definition read_addrs :: "u8 list list \<Rightarrow> nat list" where
  "read_addrs log = map request_addr (filter is_read_request log)"

text \<open>
  A device's Page Description Table as the scan meets it. \<open>pdt_reply e\<close> is the answer to
  the read of one entry: a single read-data report with the six bytes \<open>e\<close>. An entry ends
  the table of its page when its function number is 0x00 or 0xFF. \<open>page_table tab\<close>: \<open>tab\<close>
  is what the scan reads on one page, up to and including the first end entry, or all 39
  entries of the address range when none ends the table. \<open>pdt_pages tabs\<close>: \<open>tabs\<close> are the
  tables of pages 0, 1, ... up to and including the first page without a function, or all
  256 pages. \<open>scan_addrs\<close> lists the addresses of these entries, \<open>functions_found\<close> the
  entries that are functions, in scan order.
\<close>

definition pdt_reply :: "u8 list \<Rightarrow> wait_result" where
  "pdt_reply e = Delivery (read_data e)"

definition end_of_pdt :: "u8 list \<Rightarrow> bool" where
  "end_of_pdt e \<longleftrightarrow> RMI4_END_OF_PDT (pdt_function_number e)"

definition page_table :: "u8 list list \<Rightarrow> bool" where
  "page_table tab \<longleftrightarrow>
     tab \<noteq> [] \<and> length tab \<le> 39 \<and> (\<forall>e\<in>set tab. length e = 6) \<and>
     (\<forall>e\<in>set (butlast tab). \<not> end_of_pdt e) \<and>
     (length tab < 39 \<longrightarrow> end_of_pdt (last tab))"

definition has_function :: "u8 list list \<Rightarrow> bool" where
  "has_function tab \<longleftrightarrow> (\<exists>e\<in>set tab. \<not> end_of_pdt e)"

fun scan_addrs :: "nat \<Rightarrow> u8 list list list \<Rightarrow> nat list" where
  "scan_addrs p [] = []"
| "scan_addrs p (tab # tabs) =
     map (\<lambda>k. 256 * p + 233 - 6 * k) [0..<length tab] @ scan_addrs (Suc p) tabs"

definition pdt_pages :: "u8 list list list \<Rightarrow> bool" where
  "pdt_pages tabs \<longleftrightarrow>
     tabs \<noteq> [] \<and> length tabs \<le> 256 \<and> (\<forall>tab\<in>set tabs. page_table tab) \<and>
     (\<forall>tab\<in>set (butlast tabs). has_function tab) \<and>
     (length tabs < 256 \<longrightarrow> \<not> has_function (last tabs))"

definition functions_found :: "u8 list list list \<Rightarrow> u8 list list" where
  "functions_found tabs = filter (\<lambda>e. \<not> end_of_pdt e) (concat tabs)"

text \<open>
  The registrations the scan makes, as a walk over the functions found, each with its
  page: \<open>register_all\<close> calls \<open>rmi_register_function\<close> with the running interrupt count and
  adds the entry's interrupt source count to it.
\<close>

fun register_all :: "rmi_data \<Rightarrow> nat \<Rightarrow> (nat \<times> u8 list) list \<Rightarrow> rmi_data \<times> nat" where
  "register_all d c [] = (d, c)"
| "register_all d c ((p, e) # xs) =
     register_all (rmi_register_function d e p c) (c + unat (pdt_interrupt_source_count e)) xs"

definition functions_on :: "nat \<Rightarrow> u8 list list \<Rightarrow> (nat \<times> u8 list) list" where
  "functions_on p tab = map (Pair p) (filter (\<lambda>e. \<not> end_of_pdt e) tab)"

fun functions_from :: "nat \<Rightarrow> u8 list list list \<Rightarrow> (nat \<times> u8 list) list" where
  "functions_from p [] = []"
| "functions_from p (tab # tabs) = functions_on p tab @ functions_from (Suc p) tabs"

text \<open>
  \<open>last_entry_of fn found j\<close>: entry \<open>j\<close> of \<open>found\<close> has function number \<open>fn\<close> and no later
  entry has. \<open>interrupt_sources es\<close> is the sum of the interrupt source counts of \<open>es\<close>.
\<close>

definition last_entry_of :: "u8 \<Rightarrow> u8 list list \<Rightarrow> nat \<Rightarrow> bool" where
  "last_entry_of fn found j \<longleftrightarrow>
     j < length found \<and> pdt_function_number (found ! j) = fn \<and>
     (\<forall>i. j < i \<and> i < length found \<longrightarrow> pdt_function_number (found ! i) \<noteq> fn)"

definition interrupt_sources :: "u8 list list \<Rightarrow> nat" where
  "interrupt_sources es = sum_list (map (\<lambda>e. unat (pdt_interrupt_source_count e)) es)"

text \<open>The device context without the fields the register protocol engine works on.\<close>

definition settings :: "rmi_data \<Rightarrow> rmi_data" where
  "settings d = d\<lparr>page := 0, report_buf := [], flags := 0\<rparr>"

text \<open>
  Example inputs: a device probed with an 11-byte attention report and a 7-byte write
  report (report sizes 12 and 8 with the report id), a transport that answers every
  output report with \<open>w\<close> and follows an inbound script.
\<close>

definition example_data :: rmi_data where
  "example_data = rmi_probe 88 56"

definition example_hdev :: "int \<Rightarrow> wait_result list \<Rightarrow> hid_device" where
  "example_hdev w script =
     \<lparr>hw_output = (\<lambda>n. w), sent = [], hw_raw_request = (\<lambda>n. 0), features = [],
      inbound = script\<rparr>"

text \<open>
  A touchpad as the populate functions leave it: \<open>n\<close> fingers, the report size that goes
  with them, \<open>max_y = 4095\<close>, F11 on interrupt bit 0, and F30 on interrupt bit 1 with one
  GPIO wired as a button.
\<close>

definition example_touchpad :: "nat \<Rightarrow> rmi_data" where
  "example_touchpad n =
     example_data\<lparr>flags := set_bit RMI_STARTED 0, max_fingers := n, max_y := 4095,
        f11 := rmi_function_zero\<lparr>interrupt_base := 0, interrupt_count := 1, irq_mask := 1,
                 report_size := n * 5 + DIV_ROUND_UP n 4\<rparr>,
        f30 := rmi_function_zero\<lparr>interrupt_base := 1, interrupt_count := 1, irq_mask := 2,
                 report_size := 1\<rparr>,
        gpio_led_count := 1, button_count := 1, button_mask := 1, button_state_mask := 1\<rparr>"

text \<open>What a decoder did: its return value and the input events logged.\<close>

definition decode_result :: "(int \<times> rmi_data) option \<Rightarrow> (int \<times> input_ev list) option" where
  "decode_result res = map_option (\<lambda>(ret, hdata). (ret, input hdata)) res"

text \<open>Whether the reset work is queued after a raw event.\<close>

definition reset_queued :: "(int \<times> hid_device \<times> rmi_data) option \<Rightarrow> bool option" where
  "reset_queued res = map_option (\<lambda>(ret, hdev, hdata). reset_work hdata) res"

text \<open>
  A Page Description Table: on page 0 an unrecognised function 0x34 with 2 interrupt
  sources, the touch function 0x11 with 4, and the end entry; page 1 is empty.
  \<open>example_scanned\<close> is the example device with F11 registered from that table.
\<close>

definition example_pdt :: "u8 list list list" where
  "example_pdt =
     [[[0x10, 0x20, 0x30, 0x40, 0x02, 0x34],
       [0x50, 0x60, 0x70, 0x80, 0x04, 0x11],
       [0x00, 0x00, 0x00, 0x00, 0x00, 0x00]],
      [[0x00, 0x00, 0x00, 0x00, 0x00, 0x00]]]"


section \<open>The read path\<close>

lemma unset_set_flag: "\<not> bit (w::ulong) n \<Longrightarrow> unset_bit n (set_bit n w) = w"
  by (rule bit_eqI) (auto simp: bit_unset_bit_iff bit_set_bit_iff)

lemma wait_event_timeout_pending:
  "bit (flags d) RMI_READ_DATA_PENDING \<Longrightarrow> wait_event_timeout ws d = Some (True, ws, d)"
  by (cases ws) auto

lemma flag_numbers:
  "RMI_READ_REQUEST_PENDING = 1" "RMI_READ_DATA_PENDING = 2" "RMI_STARTED = 4"
  by (simp_all add: RMI_READ_REQUEST_PENDING_def RMI_READ_DATA_PENDING_def RMI_STARTED_def BIT_def)

lemma delivery_step:
  assumes pr: "probed d"
    and req: "bit (flags d) RMI_READ_REQUEST_PENDING"
    and nopend: "\<not> bit (flags d) RMI_READ_DATA_PENDING"
    and ok: "chunk_ok d r"
  shows "\<exists>d1. wait_event_timeout (Delivery r # ws) d = Some (True, ws, d1)
      \<and> flags d1 = set_bit RMI_READ_DATA_PENDING (flags d)
      \<and> output_report_size d1 = output_report_size d
      \<and> input_report_size d1 = input_report_size d
      \<and> length (report_buf d1) = length (report_buf d)
      \<and> readReport_get d1 1 = Some (r ! 1)
      \<and> (\<forall>m \<le> chunk_count r. readReport_bytes d1 2 m = Some (take m (chunk_payload r)))
      \<and> d1\<lparr>flags := flags d\<rparr> = d\<lparr>report_buf := report_buf d1\<rparr>"
proof -
  let ?k = "nat (output_report_size d)"
  let ?n = "length r"
  have len: "length (report_buf d) = ?k + nat (input_report_size d)" "?n \<le> nat (input_report_size d)" "2 + chunk_count r \<le> ?n"
    using pr ok by (auto simp: probed_def chunk_ok_def)
  define d1 where "d1 = d\<lparr>report_buf := take ?k (report_buf d) @ take ?n r @ drop (?k + ?n) (report_buf d),
     flags := set_bit RMI_READ_DATA_PENDING (flags d)\<rparr>"
  have ev: "rmi_read_data_event d r = Some (1, d1)"
    using req len ok by (simp add: rmi_read_data_event_def readReport_memcpy_def d1_def chunk_ok_def min_def Let_def)
  have pend: "bit (flags d1) RMI_READ_DATA_PENDING"
    by (simp add: d1_def bit_set_bit_iff flag_numbers)
  have w: "wait_event_timeout (Delivery r # ws) d = Some (True, ws, d1)"
    using nopend ev wait_event_timeout_pending[OF pend] by simp
  have g: "readReport_get d1 1 = Some (r ! 1)"
    using len by (simp add: readReport_get_def d1_def nth_append Let_def)
  have b: "readReport_bytes d1 2 m = Some (take m (chunk_payload r))" if "m \<le> chunk_count r" for m
    using len that by (simp add: readReport_bytes_def d1_def chunk_payload_def min_def Let_def)
  have rest: "flags d1 = set_bit RMI_READ_DATA_PENDING (flags d)"
    "output_report_size d1 = output_report_size d"
    "input_report_size d1 = input_report_size d"
    "length (report_buf d1) = length (report_buf d)"
    "d1\<lparr>flags := flags d\<rparr> = d\<lparr>report_buf := report_buf d1\<rparr>"
    using len by (simp_all add: d1_def)
  from w rest g b show ?thesis by blast
qed

lemma chunk_payload_length: "chunk_ok d r \<Longrightarrow> length (chunk_payload r) = chunk_count r"
  by (auto simp: chunk_ok_def chunk_payload_def)

lemma while_done:
  "\<not> bytes_read < len \<Longrightarrow>
   read_block_while len hdev d buf ret bytes_read bytes_needed = Some (ret, buf, hdev, d)"
  by (simp add: read_block_while.simps)

lemma while_timeout:
  assumes "\<not> bit (flags d) RMI_READ_DATA_PENDING" "bytes_read < len"
    and "inbound hdev = Timeout # ws"
  shows "read_block_while len hdev d buf ret bytes_read bytes_needed =
     Some (- EAGAIN, buf, hdev\<lparr>inbound := ws\<rparr>, d)"
  using assms by (simp add: read_block_while.simps)

lemma while_step:
  assumes pr: "probed d"
    and req: "bit (flags d) RMI_READ_REQUEST_PENDING"
    and nopend: "\<not> bit (flags d) RMI_READ_DATA_PENDING"
    and ok: "chunk_ok d r"
    and inb: "inbound hdev = Delivery r # ws"
    and lt: "int (length acc) < len"
    and room: "len \<le> int (length acc) + int (length t)"
  shows "\<exists>rb. length rb = length (report_buf d) \<and>
     read_block_while len hdev d (acc @ t) ret (int (length acc)) (len - int (length acc)) =
     read_block_while len (hdev\<lparr>inbound := ws\<rparr>) (d\<lparr>report_buf := rb\<rparr>)
       (acc @ take (nat (min (int (chunk_count r)) (len - int (length acc)))) (chunk_payload r)
            @ drop (nat (min (int (chunk_count r)) (len - int (length acc)))) t)
       ret (int (length acc) + int (chunk_count r)) (len - int (length acc) - int (chunk_count r))"
proof -
  from delivery_step[OF pr req nopend ok, of ws] obtain d1 where
    w: "wait_event_timeout (Delivery r # ws) d = Some (True, ws, d1)"
    and fl: "flags d1 = set_bit RMI_READ_DATA_PENDING (flags d)"
    and sz: "output_report_size d1 = output_report_size d" "input_report_size d1 = input_report_size d"
       "length (report_buf d1) = length (report_buf d)"
    and g: "readReport_get d1 1 = Some (r ! 1)"
    and b: "\<And>m. m \<le> chunk_count r \<Longrightarrow> readReport_bytes d1 2 m = Some (take m (chunk_payload r))"
    and fr: "d1\<lparr>flags := flags d\<rparr> = d\<lparr>report_buf := report_buf d1\<rparr>"
    by blast
  let ?m = "nat (min (int (chunk_count r)) (len - int (length acc)))"
  have m: "?m \<le> chunk_count r" by simp
  have ui: "uint (r ! 1) = int (chunk_count r)" by (simp add: chunk_count_def)
  have lm: "length (take ?m (chunk_payload r)) = ?m"
    using chunk_payload_length[OF ok] by simp
  have cp: "buf_memcpy (acc @ t) (length acc) (take ?m (chunk_payload r)) =
       Some (acc @ take ?m (chunk_payload r) @ drop ?m t)"
    unfolding buf_memcpy_def lm using room lt by (auto simp: min_def)
  have fl2: "d1\<lparr>flags := unset_bit RMI_READ_DATA_PENDING (flags d1)\<rparr> = d\<lparr>report_buf := report_buf d1\<rparr>"
    using fr by (simp add: fl unset_set_flag[OF nopend])
  show ?thesis
    apply (rule exI[of _ "report_buf d1"])
    apply (rule conjI[OF sz(3)])
    apply (simp add: read_block_while.simps[of len hdev d] lt inb w g[simplified] ui[simplified] b[OF m] cp[simplified] fl2
             del: wait_event_timeout.simps)
    done
qed

lemma probed_report_buf [simp]:
  "length rb = length (report_buf d) \<Longrightarrow> probed (d\<lparr>report_buf := rb\<rparr>) = probed d"
  by (simp add: probed_def)

lemma chunk_ok_report_buf [simp]: "chunk_ok (d\<lparr>report_buf := rb\<rparr>) r = chunk_ok d r"
  by (simp add: chunk_ok_def)

lemma while_chunks:
  assumes "probed d"
    and "bit (flags d) RMI_READ_REQUEST_PENDING"
    and "\<not> bit (flags d) RMI_READ_DATA_PENDING"
    and "\<forall>r\<in>set reps. chunk_ok d r"
    and "inbound hdev = map Delivery reps @ rest"
    and "int (length acc) < len"
    and "len \<le> int (length acc) + int (length t)"
    and "int (sum_list (map chunk_count (butlast reps))) < len - int (length acc)"
    and "len - int (length acc) \<le> int (sum_list (map chunk_count reps))"
  shows "\<exists>rb. length rb = length (report_buf d) \<and>
     read_block_while len hdev d (acc @ t) ret (int (length acc)) (len - int (length acc)) =
     Some (ret, take (nat len) (acc @ concat (map chunk_payload reps)) @ drop (nat len - length acc) t,
           hdev\<lparr>inbound := rest\<rparr>, d\<lparr>report_buf := rb\<rparr>)"
  using assms
proof (induction reps arbitrary: hdev d acc t)
  case Nil
  then show ?case by simp
next
  case (Cons r reps)
  let ?c = "chunk_count r"
  let ?m = "nat (min (int ?c) (len - int (length acc)))"
  have ok: "chunk_ok d r" using Cons.prems(4) by simp
  have inb: "inbound hdev = Delivery r # (map Delivery reps @ rest)" using Cons.prems(5) by simp
  from while_step[OF Cons.prems(1,2,3) ok inb Cons.prems(6,7), of ret]
  obtain rb where rb: "length rb = length (report_buf d)"
    and step: "read_block_while len hdev d (acc @ t) ret (int (length acc)) (len - int (length acc)) =
     read_block_while len (hdev\<lparr>inbound := map Delivery reps @ rest\<rparr>) (d\<lparr>report_buf := rb\<rparr>)
       (acc @ take ?m (chunk_payload r) @ drop ?m t)
       ret (int (length acc) + int ?c) (len - int (length acc) - int ?c)"
    by blast
  have pl: "length (chunk_payload r) = ?c" by (rule chunk_payload_length[OF ok])
  show ?case
  proof (cases "reps = []")
    case True
    then have ge: "len - int (length acc) \<le> int ?c" using Cons.prems(9) by simp
    then have m: "?m = nat len - length acc" using Cons.prems(6) by (simp add: min_def nat_diff_distrib)
    have "read_block_while len hdev d (acc @ t) ret (int (length acc)) (len - int (length acc)) =
       Some (ret, acc @ take ?m (chunk_payload r) @ drop ?m t,
         hdev\<lparr>inbound := rest\<rparr>, d\<lparr>report_buf := rb\<rparr>)"
      unfolding step using ge True by (simp add: while_done)
    moreover have "take (nat len) (acc @ concat (map chunk_payload (r # reps))) = acc @ take ?m (chunk_payload r)"
      using True Cons.prems(6) by (simp add: m)
    ultimately show ?thesis using rb unfolding m by (intro exI[of _ rb]) simp
  next
    case False
    then have bl: "butlast (r # reps) = r # butlast reps" by simp
    have lt: "int ?c < len - int (length acc)" using Cons.prems(8) unfolding bl by simp
    then have m: "?m = ?c" by (simp add: min_def)
    let ?acc = "acc @ chunk_payload r"
    let ?d = "d\<lparr>report_buf := rb\<rparr>"
    let ?h = "hdev\<lparr>inbound := map Delivery reps @ rest\<rparr>"
    have step': "read_block_while len hdev d (acc @ t) ret (int (length acc)) (len - int (length acc)) =
     read_block_while len ?h ?d (?acc @ drop ?c t) ret (int (length ?acc)) (len - int (length ?acc))"
      unfolding step m using pl by (simp add: algebra_simps)
    have p1: "probed ?d" using Cons.prems(1) rb by simp
    have p2: "bit (flags ?d) RMI_READ_REQUEST_PENDING" using Cons.prems(2) by simp
    have p3: "\<not> bit (flags ?d) RMI_READ_DATA_PENDING" using Cons.prems(3) by simp
    have p4: "\<forall>r\<in>set reps. chunk_ok ?d r" using Cons.prems(4) by simp
    have p5: "inbound ?h = map Delivery reps @ rest" by simp
    have p6: "int (length ?acc) < len" using lt pl by simp
    have p7: "len \<le> int (length ?acc) + int (length (drop ?c t))" using Cons.prems(7) lt pl by simp
    have p8: "int (sum_list (map chunk_count (butlast reps))) < len - int (length ?acc)"
      using Cons.prems(8) pl unfolding bl by simp
    have p9: "len - int (length ?acc) \<le> int (sum_list (map chunk_count reps))"
      using Cons.prems(9) pl by simp
    from Cons.IH[OF p1 p2 p3 p4 p5 p6 p7 p8 p9]
    obtain rb' where rb': "length rb' = length (report_buf ?d)"
      and res: "read_block_while len ?h ?d (?acc @ drop ?c t) ret (int (length ?acc)) (len - int (length ?acc)) =
        Some (ret, take (nat len) (?acc @ concat (map chunk_payload reps)) @ drop (nat len - length ?acc) (drop ?c t),
           ?h\<lparr>inbound := rest\<rparr>, ?d\<lparr>report_buf := rb'\<rparr>)"
      by blast
    have dd: "drop (nat len - length ?acc) (drop ?c t) = drop (nat len - length acc) t"
      using lt pl by (simp add: algebra_simps)
    show ?thesis
      using rb rb' unfolding step' res dd by (intro exI[of _ rb']) simp
  qed
qed

lemma while_partial:
  assumes "probed d"
    and "bit (flags d) RMI_READ_REQUEST_PENDING"
    and "\<not> bit (flags d) RMI_READ_DATA_PENDING"
    and "\<forall>r\<in>set reps. chunk_ok d r"
    and "inbound hdev = map Delivery reps @ Timeout # rest"
    and "int (length acc) + int (sum_list (map chunk_count reps)) < len"
    and "len \<le> int (length acc) + int (length t)"
  shows "\<exists>rb. length rb = length (report_buf d) \<and>
     read_block_while len hdev d (acc @ t) ret (int (length acc)) (len - int (length acc)) =
     Some (- EAGAIN, acc @ partial_fill reps t, hdev\<lparr>inbound := rest\<rparr>, d\<lparr>report_buf := rb\<rparr>)"
  using assms
proof (induction reps arbitrary: hdev d acc t)
  case Nil
  have "read_block_while len hdev d (acc @ t) ret (int (length acc)) (len - int (length acc)) =
     Some (- EAGAIN, acc @ t, hdev\<lparr>inbound := rest\<rparr>, d)"
    using Nil.prems by (intro while_timeout) simp_all
  then show ?case by (intro exI[of _ "report_buf d"]) (simp add: partial_fill_def)
next
  case (Cons r reps)
  let ?c = "chunk_count r"
  let ?m = "nat (min (int ?c) (len - int (length acc)))"
  have ok: "chunk_ok d r" using Cons.prems(4) by simp
  have inb: "inbound hdev = Delivery r # (map Delivery reps @ Timeout # rest)"
    using Cons.prems(5) by simp
  have lt0: "int (length acc) < len" using Cons.prems(6) by simp
  from while_step[OF Cons.prems(1,2,3) ok inb lt0 Cons.prems(7), of ret]
  obtain rb where rb: "length rb = length (report_buf d)"
    and step: "read_block_while len hdev d (acc @ t) ret (int (length acc)) (len - int (length acc)) =
     read_block_while len (hdev\<lparr>inbound := map Delivery reps @ Timeout # rest\<rparr>) (d\<lparr>report_buf := rb\<rparr>)
       (acc @ take ?m (chunk_payload r) @ drop ?m t)
       ret (int (length acc) + int ?c) (len - int (length acc) - int ?c)"
    by blast
  have pl: "length (chunk_payload r) = ?c" by (rule chunk_payload_length[OF ok])
  have lt: "int ?c < len - int (length acc)" using Cons.prems(6) by simp
  then have m: "?m = ?c" by (simp add: min_def)
  let ?acc = "acc @ chunk_payload r"
  let ?d = "d\<lparr>report_buf := rb\<rparr>"
  let ?h = "hdev\<lparr>inbound := map Delivery reps @ Timeout # rest\<rparr>"
  have step': "read_block_while len hdev d (acc @ t) ret (int (length acc)) (len - int (length acc)) =
     read_block_while len ?h ?d (?acc @ drop ?c t) ret (int (length ?acc)) (len - int (length ?acc))"
    unfolding step m using pl by (simp add: algebra_simps)
  have p1: "probed ?d" using Cons.prems(1) rb by simp
  have p2: "bit (flags ?d) RMI_READ_REQUEST_PENDING" using Cons.prems(2) by simp
  have p3: "\<not> bit (flags ?d) RMI_READ_DATA_PENDING" using Cons.prems(3) by simp
  have p4: "\<forall>r\<in>set reps. chunk_ok ?d r" using Cons.prems(4) by simp
  have p5: "inbound ?h = map Delivery reps @ Timeout # rest" by simp
  have p6: "int (length ?acc) + int (sum_list (map chunk_count reps)) < len"
    using Cons.prems(6) pl by simp
  have p7: "len \<le> int (length ?acc) + int (length (drop ?c t))" using Cons.prems(7) lt pl by simp
  from Cons.IH[OF p1 p2 p3 p4 p5 p6 p7]
  obtain rb' where rb': "length rb' = length (report_buf ?d)"
    and res: "read_block_while len ?h ?d (?acc @ drop ?c t) ret (int (length ?acc)) (len - int (length ?acc)) =
        Some (- EAGAIN, ?acc @ partial_fill reps (drop ?c t), ?h\<lparr>inbound := rest\<rparr>, ?d\<lparr>report_buf := rb'\<rparr>)"
    by blast
  have pf: "chunk_payload r @ partial_fill reps (drop ?c t) = partial_fill (r # reps) t"
    using pl by (simp add: partial_fill_def add.commute)
  show ?case
    using rb rb' unfolding step' res by (intro exI[of _ rb']) (simp add: pf)
qed

lemma while_sent:
  "read_block_while len hdev d buf ret br bn = Some (r, b, hdev', d') \<Longrightarrow>
   sent hdev' = sent hdev \<and> hw_output hdev' = hw_output hdev"
proof (induction len hdev d buf ret br bn rule: read_block_while.induct)
  case (1 len hdev data buf ret bytes_read bytes_needed)
  show ?case
  proof (cases "bytes_read < len")
    case False
    with "1.prems" show ?thesis by (simp add: read_block_while.simps)
  next
    case True
    note lt = this
    show ?thesis
    proof (cases "wait_event_timeout (inbound hdev) data")
      case None
      with "1.prems" lt show ?thesis by (simp add: read_block_while.simps)
    next
      case (Some a)
      then obtain woken ws d1 where w: "wait_event_timeout (inbound hdev) data = Some (woken, ws, d1)"
        by (cases a) auto
      show ?thesis
      proof (cases woken)
        case False
        with "1.prems" lt w show ?thesis by (auto simp add: read_block_while.simps[of len hdev])
      next
        case True
        from "1.prems" lt w True obtain c src buf' where
          a: "readReport_get d1 1 = Some c"
          and b: "readReport_bytes d1 2 (nat (min (uint c) bytes_needed)) = Some src"
          and c: "buf_memcpy buf (nat bytes_read) src = Some buf'"
          and rec: "read_block_while len (hdev\<lparr>inbound := ws\<rparr>)
             (d1\<lparr>flags := unset_bit RMI_READ_DATA_PENDING (flags d1)\<rparr>) buf' ret
             (bytes_read + uint c) (bytes_needed - uint c) = Some (r, b, hdev', d')"
          by (auto simp: read_block_while.simps[of len hdev] split: option.splits)
        from "1.IH"[OF lt w _ _ _ a b c rec] True show ?thesis by simp
      qed
    qed
  qed
qed

lemma read_request_buf_length [simp]: "length (read_request_buf rb addr len) = length rb"
  by (simp add: read_request_buf_def)

lemma attempt_unfold:
  assumes "6 \<le> length (report_buf d)" "nat (output_report_size d) \<le> length (report_buf d)"
  shows "read_block_retry (Suc n) hdev d addr buf len ret =
       (let rb = read_request_buf (report_buf d) addr len;
            d6 = d\<lparr>report_buf := rb, flags := set_bit RMI_READ_REQUEST_PENDING (flags d)\<rparr>;
            hdev1 = hdev\<lparr>sent := sent hdev @ [take (nat (output_report_size d)) rb]\<rparr>;
            r = hw_output hdev (length (sent hdev)) in
        if r \<noteq> output_report_size d
        then Some (r, buf, hdev1, d\<lparr>report_buf := rb,
                 flags := unset_bit RMI_READ_REQUEST_PENDING (set_bit RMI_READ_REQUEST_PENDING (flags d))\<rparr>)
        else do {
            (r2, buf2, hdev2, d7) \<leftarrow> read_block_while len hdev1 d6 buf r 0 len;
            if r2 \<ge> 0 then Some (0, buf2, hdev2, d7)
            else read_block_retry n hdev2 d7 addr buf2 len r2 })"
  using assms
  by (auto simp add: writeReport_set_def writeReport_bytes_def rmi_write_report_def
      hid_hw_output_report_def read_request_buf_def Let_def)

lemma data_flag_after_request [simp]:
  "bit (set_bit RMI_READ_REQUEST_PENDING (w::ulong)) RMI_READ_DATA_PENDING = bit w RMI_READ_DATA_PENDING"
  "bit (set_bit RMI_READ_REQUEST_PENDING (w::ulong)) RMI_READ_REQUEST_PENDING"
  "bit (unset_bit RMI_READ_REQUEST_PENDING (w::ulong)) RMI_READ_DATA_PENDING = bit w RMI_READ_DATA_PENDING"
  by (simp_all add: bit_set_bit_iff bit_unset_bit_iff flag_numbers)

lemma probed_flags [simp]: "probed (d\<lparr>flags := f\<rparr>) = probed d"
  by (simp add: probed_def)

lemma chunk_ok_flags [simp]: "chunk_ok (d\<lparr>flags := f\<rparr>) r = chunk_ok d r"
  by (simp add: chunk_ok_def)

lemma take_read_request_buf:
  assumes "6 \<le> n" "n \<le> length rb"
  shows "take 6 (take n (read_request_buf rb addr len)) = read_request addr len"
proof -
  have "length (take 6 (read_request_buf rb addr len)) = 6" using assms by simp
  moreover have "take 6 (read_request_buf rb addr len) ! i = read_request addr len ! i" if "i < 6" for i
  proof -
    from that have "i = 0 \<or> i = 1 \<or> i = 2 \<or> i = 3 \<or> i = 4 \<or> i = 5" by arith
    moreover have "6 \<le> length rb" "rb \<noteq> []" using assms by auto
    ultimately show ?thesis
      by (elim disjE) (simp_all add: read_request_buf_def read_request_def)
  qed
  ultimately have "take 6 (read_request_buf rb addr len) = read_request addr len"
    by (intro nth_equalityI) (simp_all add: read_request_def)
  then show ?thesis using assms by (simp add: min_def)
qed

lemma retry_success:
  assumes "probed d" "6 \<le> output_report_size d"
    and "\<not> bit (flags d) RMI_READ_DATA_PENDING"
    and "0 < len" "len \<le> int (length buf)"
    and "\<forall>j. hw_output hdev j = output_report_size d"
    and "\<forall>r\<in>set reps. chunk_ok d r"
    and "chunks_complete len reps"
    and "inbound hdev = replicate k Timeout @ map Delivery reps @ rest"
    and "k < n"
  shows "\<exists>sn rb. length sn = Suc k \<and> length rb = length (report_buf d) \<and>
     (\<forall>q\<in>set sn. take 6 q = read_request addr len) \<and>
     read_block_retry n hdev d addr buf len ret =
       Some (0, take (nat len) (concat (map chunk_payload reps)) @ drop (nat len) buf,
             hdev\<lparr>sent := sent hdev @ sn, inbound := rest\<rparr>,
             d\<lparr>report_buf := rb, flags := set_bit RMI_READ_REQUEST_PENDING (flags d)\<rparr>)"
  using assms
proof (induction k arbitrary: n hdev d ret)
  case 0
  then obtain m where n: "n = Suc m" by (cases n) auto
  let ?rb = "read_request_buf (report_buf d) addr len"
  let ?d6 = "d\<lparr>report_buf := ?rb, flags := set_bit RMI_READ_REQUEST_PENDING (flags d)\<rparr>"
  let ?req = "take (nat (output_report_size d)) ?rb"
  let ?h1 = "hdev\<lparr>sent := sent hdev @ [?req]\<rparr>"
  have sz: "nat (output_report_size d) \<le> length (report_buf d)" "6 \<le> length (report_buf d)"
    "6 \<le> nat (output_report_size d)"
    using "0.prems"(1,2) by (simp_all add: probed_def)
  have hd: "take 6 ?req = read_request addr len"
    by (rule take_read_request_buf) (use sz in simp_all)
  have hd3: "take 6 ?rb = read_request addr len"
    using hd sz by (simp add: min_def)
  note hd = hd hd[simplified] hd3
  have "\<exists>rb. length rb = length (report_buf ?d6) \<and>
     read_block_while len ?h1 ?d6 ([] @ buf) (output_report_size d) (int (length ([]::u8 list)))
        (len - int (length ([]::u8 list))) =
     Some (output_report_size d,
           take (nat len) ([] @ concat (map chunk_payload reps)) @ drop (nat len - length ([]::u8 list)) buf,
           ?h1\<lparr>inbound := rest\<rparr>, ?d6\<lparr>report_buf := rb\<rparr>)"
    using "0.prems" by (intro while_chunks) (simp_all add: chunks_complete_def)
  then obtain rb where rb: "length rb = length (report_buf d)"
    and w: "read_block_while len ?h1 ?d6 buf (output_report_size d) 0 len =
     Some (output_report_size d,
           take (nat len) (concat (map chunk_payload reps)) @ drop (nat len) buf,
           ?h1\<lparr>inbound := rest\<rparr>, ?d6\<lparr>report_buf := rb\<rparr>)"
    by auto
  show ?case
    unfolding n
    apply (subst attempt_unfold[OF sz(2,1)])
    apply (intro exI[of _ "[?req]"] exI[of _ rb])
    using "0.prems"(2,6) rb apply (simp add: Let_def w hd del: read_block_retry.simps)
    done
next
  case (Suc k)
  then obtain m where n: "n = Suc m" and km: "k < m" by (cases n) auto
  let ?rb = "read_request_buf (report_buf d) addr len"
  let ?d6 = "d\<lparr>report_buf := ?rb, flags := set_bit RMI_READ_REQUEST_PENDING (flags d)\<rparr>"
  let ?req = "take (nat (output_report_size d)) ?rb"
  let ?in = "replicate k Timeout @ map Delivery reps @ rest"
  let ?h1 = "hdev\<lparr>sent := sent hdev @ [?req]\<rparr>"
  let ?h2 = "?h1\<lparr>inbound := ?in\<rparr>"
  have sz: "nat (output_report_size d) \<le> length (report_buf d)" "6 \<le> length (report_buf d)"
    "6 \<le> nat (output_report_size d)"
    using Suc.prems(1,2) by (simp_all add: probed_def)
  have hd: "take 6 ?req = read_request addr len"
    by (rule take_read_request_buf) (use sz in simp_all)
  have hd3: "take 6 ?rb = read_request addr len"
    using hd sz by (simp add: min_def)
  note hd = hd hd[simplified] hd3
  have w: "read_block_while len ?h1 ?d6 buf (output_report_size d) 0 len =
      Some (- EAGAIN, buf, ?h2, ?d6)"
    using Suc.prems by (intro while_timeout) simp_all
  have step: "read_block_retry (Suc m) hdev d addr buf len ret =
      read_block_retry m ?h2 ?d6 addr buf len (- EAGAIN)"
    using Suc.prems(6) by (simp add: attempt_unfold[OF sz(2,1)] Let_def w EAGAIN_def
        del: read_block_retry.simps)
  have "\<exists>sn rb. length sn = Suc k \<and> length rb = length (report_buf ?d6) \<and>
     (\<forall>q\<in>set sn. take 6 q = read_request addr len) \<and>
     read_block_retry m ?h2 ?d6 addr buf len (- EAGAIN) =
       Some (0, take (nat len) (concat (map chunk_payload reps)) @ drop (nat len) buf,
             ?h2\<lparr>sent := sent ?h2 @ sn, inbound := rest\<rparr>,
             ?d6\<lparr>report_buf := rb, flags := set_bit RMI_READ_REQUEST_PENDING (flags ?d6)\<rparr>)"
    using Suc.prems km by (intro Suc.IH) simp_all
  then obtain sn rb where "length sn = Suc k" "length rb = length (report_buf d)"
      "\<forall>q\<in>set sn. take 6 q = read_request addr len"
      and r: "read_block_retry m ?h2 ?d6 addr buf len (- EAGAIN) =
       Some (0, take (nat len) (concat (map chunk_payload reps)) @ drop (nat len) buf,
             hdev\<lparr>sent := sent hdev @ ?req # sn, inbound := rest\<rparr>,
             d\<lparr>report_buf := rb, flags := set_bit RMI_READ_REQUEST_PENDING (flags d)\<rparr>)"
    by (auto simp: set_bit_eq_idem_iff)
  then show ?case
    unfolding n
    apply (subst step)
    apply (intro exI[of _ "?req # sn"] exI[of _ rb])
    apply (simp add: hd)
    done
qed

lemma failed_attempt_fill:
  assumes "failed_attempt d len reps" "len \<le> int (length buf)"
  shows "length (partial_fill reps buf) = length buf"
    and "drop (nat len) (partial_fill reps buf) = drop (nat len) buf"
proof -
  have "\<forall>r\<in>set reps. chunk_ok d r" using assms(1) by (simp add: failed_attempt_def)
  then have "length (concat (map chunk_payload reps)) = sum_list (map chunk_count reps)"
    by (induction reps) (auto dest: chunk_payload_length)
  then have l: "int (length (concat (map chunk_payload reps))) < len"
    using assms(1) by (simp add: failed_attempt_def)
  with assms(2) show "length (partial_fill reps buf) = length buf"
    by (simp add: partial_fill_def)
  from l assms(2) show "drop (nat len) (partial_fill reps buf) = drop (nat len) buf"
    by (simp add: partial_fill_def)
qed

lemma failed_attempts_fill:
  assumes "\<forall>reps\<in>set fails. failed_attempt d len reps" "len \<le> int (length buf)"
  shows "length (fold partial_fill fails buf) = length buf \<and>
         drop (nat len) (fold partial_fill fails buf) = drop (nat len) buf"
  using assms
proof (induction fails arbitrary: buf)
  case Nil
  then show ?case by simp
next
  case (Cons f fs)
  have f: "failed_attempt d len f" using Cons.prems(1) by simp
  note a = failed_attempt_fill[OF f Cons.prems(2)]
  have "length (fold partial_fill fs (partial_fill f buf)) = length (partial_fill f buf) \<and>
        drop (nat len) (fold partial_fill fs (partial_fill f buf)) = drop (nat len) (partial_fill f buf)"
    using Cons.prems a by (intro Cons.IH) simp_all
  then show ?case using a by simp
qed

lemma failed_attempt_state [simp]:
  "failed_attempt (d\<lparr>report_buf := rb\<rparr>) len reps = failed_attempt d len reps"
  "failed_attempt (d\<lparr>flags := f\<rparr>) len reps = failed_attempt d len reps"
  "failed_attempt (d\<lparr>page := p\<rparr>) len reps = failed_attempt d len reps"
  by (simp_all add: failed_attempt_def chunk_ok_def)

lemma attempt_script_Cons:
  "concat (map attempt_script (f # fs)) @ rest =
   map Delivery f @ Timeout # concat (map attempt_script fs) @ rest"
  by (simp add: attempt_script_def)

lemma flags_report_buf:
  "(d::rmi_data)\<lparr>flags := F, report_buf := rb\<rparr> = d\<lparr>report_buf := rb, flags := F\<rparr>"
  by simp

lemma set_request_idem:
  "set_bit RMI_READ_REQUEST_PENDING (set_bit RMI_READ_REQUEST_PENDING (w::ulong)) =
   set_bit RMI_READ_REQUEST_PENDING w"
  by (simp add: set_bit_eq_idem_iff)

lemma retry_fails:
  assumes "probed d" "6 \<le> output_report_size d"
    and "\<not> bit (flags d) RMI_READ_DATA_PENDING"
    and "0 < len" "len \<le> int (length buf)"
    and "\<forall>j. hw_output hdev j = output_report_size d"
    and "\<forall>reps\<in>set fails. failed_attempt d len reps"
    and "inbound hdev = concat (map attempt_script fails) @ rest"
    and "length fails \<le> n" "fails \<noteq> []"
  shows "\<exists>sn rb. length sn = length fails \<and> length rb = length (report_buf d) \<and>
     (\<forall>q\<in>set sn. take 6 q = read_request addr len) \<and>
     read_block_retry n hdev d addr buf len ret =
       read_block_retry (n - length fails) (hdev\<lparr>sent := sent hdev @ sn, inbound := rest\<rparr>)
         (d\<lparr>report_buf := rb, flags := set_bit RMI_READ_REQUEST_PENDING (flags d)\<rparr>)
         addr (fold partial_fill fails buf) len (- EAGAIN)"
  using assms
proof (induction fails arbitrary: n hdev d ret buf)
  case Nil
  then show ?case by simp
next
  case (Cons f fs)
  then obtain m where n: "n = Suc m" and km: "length fs \<le> m" by (cases n) auto
  let ?rb = "read_request_buf (report_buf d) addr len"
  let ?d6 = "d\<lparr>report_buf := ?rb, flags := set_bit RMI_READ_REQUEST_PENDING (flags d)\<rparr>"
  let ?req = "take (nat (output_report_size d)) ?rb"
  let ?in = "concat (map attempt_script fs) @ rest"
  let ?h1 = "hdev\<lparr>sent := sent hdev @ [?req]\<rparr>"
  let ?h2 = "?h1\<lparr>inbound := ?in\<rparr>"
  have sz: "nat (output_report_size d) \<le> length (report_buf d)" "6 \<le> length (report_buf d)"
    "6 \<le> nat (output_report_size d)"
    using Cons.prems(1,2) by (simp_all add: probed_def)
  have hd: "take 6 ?req = read_request addr len"
    by (rule take_read_request_buf) (use sz in simp_all)
  have hd3: "take 6 ?rb = read_request addr len"
    using hd sz by (simp add: min_def)
  note hd = hd hd[simplified] hd3
  have f: "failed_attempt d len f" using Cons.prems(7) by simp
  have inb: "inbound ?h1 = map Delivery f @ Timeout # ?in"
    using Cons.prems(8) by (simp only: attempt_script_Cons) simp
  have "\<exists>rb. length rb = length (report_buf ?d6) \<and>
     read_block_while len ?h1 ?d6 ([] @ buf) (output_report_size d) (int (length ([]::u8 list)))
        (len - int (length ([]::u8 list))) =
     Some (- EAGAIN, [] @ partial_fill f buf, ?h1\<lparr>inbound := ?in\<rparr>, ?d6\<lparr>report_buf := rb\<rparr>)"
    using Cons.prems(1-6) f inb
    by (intro while_partial) (simp_all add: failed_attempt_def)
  then obtain rb1 where rb1: "length rb1 = length (report_buf d)"
    and w: "read_block_while len ?h1 ?d6 buf (output_report_size d) 0 len =
     Some (- EAGAIN, partial_fill f buf, ?h2, ?d6\<lparr>report_buf := rb1\<rparr>)"
    by auto
  let ?d7 = "?d6\<lparr>report_buf := rb1\<rparr>"
  have step: "read_block_retry (Suc m) hdev d addr buf len ret =
      read_block_retry m ?h2 ?d7 addr (partial_fill f buf) len (- EAGAIN)"
    using Cons.prems(6) by (simp add: attempt_unfold[OF sz(2,1)] Let_def w EAGAIN_def
        del: read_block_retry.simps)
  show ?case
  proof (cases "fs = []")
    case True
    show ?thesis
      unfolding n
      apply (subst step)
      apply (intro exI[of _ "[?req]"] exI[of _ rb1])
      using rb1 apply (simp add: True hd flags_report_buf)
      done
  next
    case False
    note fl = failed_attempt_fill[OF f Cons.prems(5)]
    have "\<exists>sn rb. length sn = length fs \<and> length rb = length (report_buf ?d7) \<and>
       (\<forall>q\<in>set sn. take 6 q = read_request addr len) \<and>
       read_block_retry m ?h2 ?d7 addr (partial_fill f buf) len (- EAGAIN) =
         read_block_retry (m - length fs) (?h2\<lparr>sent := sent ?h2 @ sn, inbound := rest\<rparr>)
           (?d7\<lparr>report_buf := rb, flags := set_bit RMI_READ_REQUEST_PENDING (flags ?d7)\<rparr>)
           addr (fold partial_fill fs (partial_fill f buf)) len (- EAGAIN)"
      using Cons.prems km False rb1 fl by (intro Cons.IH) simp_all
    then obtain sn rb where "length sn = length fs" "length rb = length (report_buf d)"
      "\<forall>q\<in>set sn. take 6 q = read_request addr len"
      and r: "read_block_retry m ?h2 ?d7 addr (partial_fill f buf) len (- EAGAIN) =
         read_block_retry (m - length fs) (hdev\<lparr>sent := sent hdev @ ?req # sn, inbound := rest\<rparr>)
           (d\<lparr>report_buf := rb, flags := set_bit RMI_READ_REQUEST_PENDING (flags d)\<rparr>)
           addr (fold partial_fill fs (partial_fill f buf)) len (- EAGAIN)"
      using rb1 by (auto simp: set_request_idem)
    then show ?thesis
      unfolding n
      apply (subst step)
      apply (subst r)
      apply (intro exI[of _ "?req # sn"] exI[of _ rb])
      apply (simp add: hd)
      done
  qed
qed

lemma set_page_buf_length [simp]: "length (set_page_buf rb pg) = length rb"
  by (simp add: set_page_buf_def)

lemma set_page_unfold:
  assumes "5 \<le> length (report_buf d)" "nat (output_report_size d) \<le> length (report_buf d)"
  shows "rmi_set_page hdev d pg =
     (let rb = set_page_buf (report_buf d) pg;
          hdev' = hdev\<lparr>sent := sent hdev @ [take (nat (output_report_size d)) rb]\<rparr>;
          r = hw_output hdev (length (sent hdev))
      in if r \<noteq> output_report_size d then Some (r, hdev', d\<lparr>report_buf := rb\<rparr>)
         else Some (0, hdev', d\<lparr>page := uint pg, report_buf := rb\<rparr>))"
  using assms
  by (auto simp add: rmi_set_page_def writeReport_set_def writeReport_bytes_def rmi_write_report_def
      hid_hw_output_report_def set_page_buf_def Let_def)

lemma retry_sent:
  "read_block_retry n hdev d addr buf len ret = Some (r, b, hdev', d') \<Longrightarrow>
   \<exists>sn. length sn \<le> n \<and> sent hdev' = sent hdev @ sn \<and> hw_output hdev' = hw_output hdev"
proof (induction n arbitrary: hdev d buf ret)
  case 0
  then show ?case by simp
next
  case (Suc n)
  show ?case
  proof (cases "6 \<le> length (report_buf d) \<and> nat (output_report_size d) \<le> length (report_buf d)")
    case False
    with Suc.prems show ?thesis
      by (auto simp: writeReport_set_def writeReport_bytes_def split: bind_splits if_splits)
  next
    case True
    let ?rb = "read_request_buf (report_buf d) addr len"
    let ?d6 = "d\<lparr>report_buf := ?rb, flags := set_bit RMI_READ_REQUEST_PENDING (flags d)\<rparr>"
    let ?req = "take (nat (output_report_size d)) ?rb"
    let ?h1 = "hdev\<lparr>sent := sent hdev @ [?req]\<rparr>"
    note unf = attempt_unfold[of d n hdev addr buf len ret, unfolded Let_def] 
    show ?thesis
    proof (cases "hw_output hdev (length (sent hdev)) = output_report_size d")
      case False
      with Suc.prems True show ?thesis
        by (auto simp: unf simp del: read_block_retry.simps intro!: exI[of _ "[?req]"])
    next
      case acc: True
      from Suc.prems True acc obtain r2 buf2 hdev2 d7 where
        w: "read_block_while len ?h1 ?d6 buf (output_report_size d) 0 len = Some (r2, buf2, hdev2, d7)"
        and rest: "(if r2 \<ge> 0 then Some (0, buf2, hdev2, d7)
            else read_block_retry n hdev2 d7 addr buf2 len r2) = Some (r, b, hdev', d')"
        by (auto simp: unf simp del: read_block_retry.simps split: bind_splits)
      from while_sent[OF w] have s2: "sent hdev2 = sent hdev @ [?req]" "hw_output hdev2 = hw_output hdev"
        by simp_all
      show ?thesis
      proof (cases "r2 \<ge> 0")
        case True
        with rest s2 show ?thesis by (auto intro!: exI[of _ "[?req]"])
      next
        case False
        with rest have "read_block_retry n hdev2 d7 addr buf2 len r2 = Some (r, b, hdev', d')" by simp
        from Suc.IH[OF this] obtain sn where "length sn \<le> n" "sent hdev' = sent hdev2 @ sn"
          "hw_output hdev' = hw_output hdev2" by blast
        with s2 show ?thesis by (auto intro!: exI[of _ "?req # sn"])
      qed
    qed
  qed
qed

lemma page_ucast: "uint (ucast (RMI_PAGE addr) :: u8) = uint (RMI_PAGE addr)"
proof -
  have "RMI_PAGE addr = take_bit 8 (drop_bit 8 addr)"
    by (simp add: RMI_PAGE_def take_bit_eq_mask mask_eq_exp_minus_1)
  then show ?thesis
    by (simp add: unsigned_ucast_eq take_bit_word_eq_self unsigned_take_bit_eq)
qed

lemma unset_set_request:
  "\<not> bit (w::ulong) RMI_READ_REQUEST_PENDING \<Longrightarrow>
   unset_bit RMI_READ_REQUEST_PENDING (set_bit RMI_READ_REQUEST_PENDING w) = w"
  by (rule unset_set_flag)

lemma read_block_page:
  assumes idle: "reader_idle d"
    and acc: "hw_output hdev (length (sent hdev)) = output_report_size d"
  shows "\<exists>rb ret0. length rb = length (report_buf d) \<and>
     rmi_read_block hdev d addr buf len =
       (read_block_retry 5 (hdev\<lparr>sent := sent hdev @ page_select d addr\<rparr>)
          (d\<lparr>page := uint (RMI_PAGE addr), report_buf := rb\<rparr>) addr buf len ret0
        \<bind> (\<lambda>(ret, buf', hdev', data').
           Some (ret, buf', hdev',
             data'\<lparr>flags := unset_bit RMI_READ_REQUEST_PENDING (flags data')\<rparr>)))"
proof (cases "uint (RMI_PAGE addr) = page d")
  case True
  then have "d\<lparr>page := uint (RMI_PAGE addr), report_buf := report_buf d\<rparr> = d" by simp
  with True show ?thesis
    by (intro exI[of _ "report_buf d"] exI[of _ 0]) (simp add: rmi_read_block_def page_select_def)
next
  case False
  have sz: "5 \<le> length (report_buf d)" "nat (output_report_size d) \<le> length (report_buf d)"
    "0 < output_report_size d"
    using idle by (auto simp: reader_idle_def probed_def)
  show ?thesis
    apply (intro exI[of _ "set_page_buf (report_buf d) (ucast (RMI_PAGE addr))"] exI[of _ 0])
    using False acc sz(3)
    apply (simp add: rmi_read_block_def page_select_def set_page_unfold[OF sz(1,2)] Let_def page_ucast)
    done
qed

lemma read_block_success:
  assumes idle: "reader_idle d"
    and len: "0 < len" "len \<le> int (length buf)"
    and acc: "\<forall>j. hw_output hdev j = output_report_size d"
    and ok: "\<forall>r\<in>set reps. chunk_ok d r"
    and compl: "chunks_complete len reps"
    and inb: "inbound hdev = replicate k Timeout @ map Delivery reps @ rest"
    and k: "k < 5"
  shows "\<exists>sn rb. length sn = Suc k \<and> length rb = length (report_buf d) \<and>
     (\<forall>q\<in>set sn. take 6 q = read_request addr len) \<and>
     rmi_read_block hdev d addr buf len =
       Some (0, take (nat len) (concat (map chunk_payload reps)) @ drop (nat len) buf,
             hdev\<lparr>sent := sent hdev @ page_select d addr @ sn, inbound := rest\<rparr>,
             d\<lparr>page := uint (RMI_PAGE addr), report_buf := rb\<rparr>)"
proof -
  from read_block_page[OF idle acc[rule_format], of addr buf len]
  obtain rb0 ret0 where rb0: "length rb0 = length (report_buf d)"
    and unf: "rmi_read_block hdev d addr buf len =
       (read_block_retry 5 (hdev\<lparr>sent := sent hdev @ page_select d addr\<rparr>)
          (d\<lparr>page := uint (RMI_PAGE addr), report_buf := rb0\<rparr>) addr buf len ret0
        \<bind> (\<lambda>(ret, buf', hdev', data').
           Some (ret, buf', hdev',
             data'\<lparr>flags := unset_bit RMI_READ_REQUEST_PENDING (flags data')\<rparr>)))"
    by blast
  let ?h = "hdev\<lparr>sent := sent hdev @ page_select d addr\<rparr>"
  let ?d = "d\<lparr>page := uint (RMI_PAGE addr), report_buf := rb0\<rparr>"
  have okd: "\<forall>r\<in>set reps. chunk_ok ?d r" using ok by (simp add: chunk_ok_def)
  have "\<exists>sn rb. length sn = Suc k \<and> length rb = length (report_buf ?d) \<and>
     (\<forall>q\<in>set sn. take 6 q = read_request addr len) \<and>
     read_block_retry 5 ?h ?d addr buf len ret0 =
       Some (0, take (nat len) (concat (map chunk_payload reps)) @ drop (nat len) buf,
             ?h\<lparr>sent := sent ?h @ sn, inbound := rest\<rparr>,
             ?d\<lparr>report_buf := rb, flags := set_bit RMI_READ_REQUEST_PENDING (flags ?d)\<rparr>)"
    using idle rb0 len acc inb okd compl k
    by (intro retry_success) (simp_all add: reader_idle_def probed_def)
  then obtain sn rb where "length sn = Suc k" "length rb = length (report_buf d)"
    "\<forall>q\<in>set sn. take 6 q = read_request addr len"
    and r: "read_block_retry 5 ?h ?d addr buf len ret0 =
       Some (0, take (nat len) (concat (map chunk_payload reps)) @ drop (nat len) buf,
             ?h\<lparr>sent := sent ?h @ sn, inbound := rest\<rparr>,
             ?d\<lparr>report_buf := rb, flags := set_bit RMI_READ_REQUEST_PENDING (flags ?d)\<rparr>)"
    using rb0 by auto
  moreover have "\<not> bit (flags d) RMI_READ_REQUEST_PENDING" using idle by (simp add: reader_idle_def)
  ultimately show ?thesis
    unfolding unf r
    by (intro exI[of _ sn] exI[of _ rb]) (simp add: unset_set_request)
qed

lemma read_block_exhausted:
  assumes idle: "reader_idle d"
    and len: "0 < len" "len \<le> int (length buf)"
    and acc: "\<forall>j. hw_output hdev j = output_report_size d"
    and fails: "\<forall>reps\<in>set fails. failed_attempt d len reps" "length fails = 5"
    and inb: "inbound hdev = concat (map attempt_script fails) @ rest"
  shows "\<exists>sn rb. length sn = 5 \<and> length rb = length (report_buf d) \<and>
     (\<forall>q\<in>set sn. take 6 q = read_request addr len) \<and>
     rmi_read_block hdev d addr buf len =
       Some (- EAGAIN, fold partial_fill fails buf,
             hdev\<lparr>sent := sent hdev @ page_select d addr @ sn, inbound := rest\<rparr>,
             d\<lparr>page := uint (RMI_PAGE addr), report_buf := rb\<rparr>)"
proof -
  from read_block_page[OF idle acc[rule_format], of addr buf len]
  obtain rb0 ret0 where rb0: "length rb0 = length (report_buf d)"
    and unf: "rmi_read_block hdev d addr buf len =
       (read_block_retry 5 (hdev\<lparr>sent := sent hdev @ page_select d addr\<rparr>)
          (d\<lparr>page := uint (RMI_PAGE addr), report_buf := rb0\<rparr>) addr buf len ret0
        \<bind> (\<lambda>(ret, buf', hdev', data').
           Some (ret, buf', hdev',
             data'\<lparr>flags := unset_bit RMI_READ_REQUEST_PENDING (flags data')\<rparr>)))"
    by blast
  let ?h = "hdev\<lparr>sent := sent hdev @ page_select d addr\<rparr>"
  let ?d = "d\<lparr>page := uint (RMI_PAGE addr), report_buf := rb0\<rparr>"
  have ne: "fails \<noteq> []" using fails(2) by auto
  have "\<exists>sn rb. length sn = length fails \<and> length rb = length (report_buf ?d) \<and>
     (\<forall>q\<in>set sn. take 6 q = read_request addr len) \<and>
     read_block_retry 5 ?h ?d addr buf len ret0 =
       read_block_retry (5 - length fails) (?h\<lparr>sent := sent ?h @ sn, inbound := rest\<rparr>)
         (?d\<lparr>report_buf := rb, flags := set_bit RMI_READ_REQUEST_PENDING (flags ?d)\<rparr>)
         addr (fold partial_fill fails buf) len (- EAGAIN)"
    using idle rb0 len acc inb fails ne
    by (intro retry_fails) (simp_all add: reader_idle_def probed_def)
  then obtain sn rb where "length sn = 5" "length rb = length (report_buf d)"
    "\<forall>q\<in>set sn. take 6 q = read_request addr len"
    and r: "read_block_retry 5 ?h ?d addr buf len ret0 =
       Some (- EAGAIN, fold partial_fill fails buf, ?h\<lparr>sent := sent ?h @ sn, inbound := rest\<rparr>,
             ?d\<lparr>report_buf := rb, flags := set_bit RMI_READ_REQUEST_PENDING (flags ?d)\<rparr>)"
    using rb0 fails(2) by auto
  moreover have "\<not> bit (flags d) RMI_READ_REQUEST_PENDING" using idle by (simp add: reader_idle_def)
  ultimately show ?thesis
    unfolding unf r
    by (intro exI[of _ sn] exI[of _ rb]) (simp add: unset_set_request)
qed

lemma read_block_retried:
  assumes idle: "reader_idle d"
    and len: "0 < len" "len \<le> int (length buf)"
    and acc: "\<forall>j. hw_output hdev j = output_report_size d"
    and fails: "\<forall>reps\<in>set fails. failed_attempt d len reps" "length fails < 5"
    and ok: "\<forall>r\<in>set reps. chunk_ok d r"
    and compl: "chunks_complete len reps"
    and inb: "inbound hdev = concat (map attempt_script fails) @ map Delivery reps @ rest"
  shows "\<exists>sn rb. length sn = Suc (length fails) \<and> length rb = length (report_buf d) \<and>
     (\<forall>q\<in>set sn. take 6 q = read_request addr len) \<and>
     rmi_read_block hdev d addr buf len =
       Some (0, take (nat len) (concat (map chunk_payload reps)) @ drop (nat len) buf,
             hdev\<lparr>sent := sent hdev @ page_select d addr @ sn, inbound := rest\<rparr>,
             d\<lparr>page := uint (RMI_PAGE addr), report_buf := rb\<rparr>)"
proof (cases "fails = []")
  case True
  with inb have "inbound hdev = replicate 0 Timeout @ map Delivery reps @ rest" by simp
  from read_block_success[OF idle len acc ok compl this, of addr] True show ?thesis by simp
next
  case ne: False
  from read_block_page[OF idle acc[rule_format], of addr buf len]
  obtain rb0 ret0 where rb0: "length rb0 = length (report_buf d)"
    and unf: "rmi_read_block hdev d addr buf len =
       (read_block_retry 5 (hdev\<lparr>sent := sent hdev @ page_select d addr\<rparr>)
          (d\<lparr>page := uint (RMI_PAGE addr), report_buf := rb0\<rparr>) addr buf len ret0
        \<bind> (\<lambda>(ret, buf', hdev', data').
           Some (ret, buf', hdev',
             data'\<lparr>flags := unset_bit RMI_READ_REQUEST_PENDING (flags data')\<rparr>)))"
    by blast
  let ?h = "hdev\<lparr>sent := sent hdev @ page_select d addr\<rparr>"
  let ?d = "d\<lparr>page := uint (RMI_PAGE addr), report_buf := rb0\<rparr>"
  let ?buf = "fold partial_fill fails buf"
  let ?out = "take (nat len) (concat (map chunk_payload reps)) @ drop (nat len) buf"
  have pr: "probed ?d" "6 \<le> output_report_size ?d" "\<not> bit (flags ?d) RMI_READ_DATA_PENDING"
    and noreq: "\<not> bit (flags d) RMI_READ_REQUEST_PENDING"
    using idle rb0 by (simp_all add: reader_idle_def probed_def)
  have fl: "length ?buf = length buf" "drop (nat len) ?buf = drop (nat len) buf"
    using failed_attempts_fill[OF fails(1) len(2)] by simp_all
  have "\<exists>sn rb. length sn = length fails \<and> length rb = length (report_buf ?d) \<and>
     (\<forall>q\<in>set sn. take 6 q = read_request addr len) \<and>
     read_block_retry 5 ?h ?d addr buf len ret0 =
       read_block_retry (5 - length fails) (?h\<lparr>sent := sent ?h @ sn, inbound := map Delivery reps @ rest\<rparr>)
         (?d\<lparr>report_buf := rb, flags := set_bit RMI_READ_REQUEST_PENDING (flags ?d)\<rparr>)
         addr ?buf len (- EAGAIN)"
    using pr len acc inb fails ne
    by (intro retry_fails) simp_all
  then obtain sn1 rb1 where sn1: "length sn1 = length fails" "length rb1 = length (report_buf d)"
    "\<forall>q\<in>set sn1. take 6 q = read_request addr len"
    and r1: "read_block_retry 5 ?h ?d addr buf len ret0 =
       read_block_retry (5 - length fails) (?h\<lparr>sent := sent ?h @ sn1, inbound := map Delivery reps @ rest\<rparr>)
         (?d\<lparr>report_buf := rb1, flags := set_bit RMI_READ_REQUEST_PENDING (flags ?d)\<rparr>)
         addr ?buf len (- EAGAIN)"
    using rb0 by auto
  let ?h1 = "?h\<lparr>sent := sent ?h @ sn1, inbound := map Delivery reps @ rest\<rparr>"
  let ?d1 = "?d\<lparr>report_buf := rb1, flags := set_bit RMI_READ_REQUEST_PENDING (flags ?d)\<rparr>"
  have "\<exists>sn rb. length sn = Suc 0 \<and> length rb = length (report_buf ?d1) \<and>
     (\<forall>q\<in>set sn. take 6 q = read_request addr len) \<and>
     read_block_retry (5 - length fails) ?h1 ?d1 addr ?buf len (- EAGAIN) =
       Some (0, take (nat len) (concat (map chunk_payload reps)) @ drop (nat len) ?buf,
             ?h1\<lparr>sent := sent ?h1 @ sn, inbound := rest\<rparr>,
             ?d1\<lparr>report_buf := rb, flags := set_bit RMI_READ_REQUEST_PENDING (flags ?d1)\<rparr>)"
    using pr sn1 rb0 len acc ok compl fails(2) fl
    by (intro retry_success[where k = 0]) (simp_all add: chunk_ok_def)
  then obtain sn2 rb2 where sn2: "length sn2 = Suc 0" "length rb2 = length (report_buf d)"
    "\<forall>q\<in>set sn2. take 6 q = read_request addr len"
    and r2: "read_block_retry (5 - length fails) ?h1 ?d1 addr ?buf len (- EAGAIN) =
       Some (0, ?out,
             hdev\<lparr>sent := sent hdev @ page_select d addr @ sn1 @ sn2, inbound := rest\<rparr>,
             d\<lparr>page := uint (RMI_PAGE addr), report_buf := rb2,
               flags := set_bit RMI_READ_REQUEST_PENDING (flags d)\<rparr>)"
    using sn1 rb0 fl by (auto simp: set_request_idem)
  show ?thesis
    unfolding unf r1 r2
    using sn1 sn2 noreq
    by (intro exI[of _ "sn1 @ sn2"] exI[of _ rb2]) (auto simp add: unset_set_request)
qed

lemma page_select_not_read:
  assumes "reader_idle d"
  shows "filter is_read_request (page_select d addr) = []"
proof -
  have "6 \<le> nat (output_report_size d)" "6 \<le> length (report_buf d)" "report_buf d \<noteq> []"
    using assms by (auto simp: reader_idle_def probed_def)
  then have "take 1 (take (nat (output_report_size d))
      (set_page_buf (report_buf d) (ucast (RMI_PAGE addr)))) = [RMI_WRITE_REPORT_ID]"
    by (cases "report_buf d") (simp_all add: set_page_buf_def min_def)
  then show ?thesis
    by (simp add: page_select_def is_read_request_def RMI_WRITE_REPORT_ID_def RMI_READ_ADDR_REPORT_ID_def)
qed

lemma read_block_sent:
  assumes idle: "reader_idle d"
    and res: "rmi_read_block hdev d addr buf len = Some (ret, b, hdev', d')"
  shows "\<exists>sn. length sn \<le> 5 \<and> sent hdev' = sent hdev @ page_select d addr @ sn"
proof (cases "uint (RMI_PAGE addr) = page d")
  case True
  with res obtain d2 where "read_block_retry 5 hdev d addr buf len 0 = Some (ret, b, hdev', d2)"
    by (auto simp: rmi_read_block_def split: bind_splits)
  from retry_sent[OF this] True show ?thesis by (auto simp: page_select_def)
next
  case False
  have sz: "5 \<le> length (report_buf d)" "nat (output_report_size d) \<le> length (report_buf d)"
    using idle by (auto simp: reader_idle_def probed_def)
  let ?h1 = "hdev\<lparr>sent := sent hdev @ page_select d addr\<rparr>"
  from res False consider (fail) "hdev' = ?h1"
    | (go) r0 d1 d2 where "read_block_retry 5 ?h1 d1 addr buf len r0 = Some (ret, b, hdev', d2)"
    by (auto simp: rmi_read_block_def page_select_def set_page_unfold[OF sz] Let_def
        split: bind_splits if_splits)
  then show ?thesis
  proof cases
    case fail
    then show ?thesis by (intro exI[of _ "[]"]) simp
  next
    case go
    from retry_sent[OF this] show ?thesis by auto
  qed
qed

lemma read_block_bound:
  assumes "reader_idle d" "rmi_read_block hdev d addr buf len = Some (ret, b, hdev', d')"
  shows "read_attempts hdev hdev' \<le> 5"
proof -
  from read_block_sent[OF assms] obtain sn where
    "length sn \<le> 5" "sent hdev' = sent hdev @ page_select d addr @ sn" by blast
  moreover from this have "length (filter is_read_request sn) \<le> 5"
    using length_filter_le[of is_read_request sn] by linarith
  ultimately show ?thesis
    by (simp add: read_attempts_def page_select_not_read[OF assms(1)])
qed

lemma read_attempts_requests:
  assumes "reader_idle d" "\<forall>q\<in>set sn. take 6 q = read_request addr len"
  shows "read_attempts hdev (hdev\<lparr>sent := sent hdev @ page_select d addr @ sn, inbound := rest\<rparr>) = length sn"
proof -
  have "is_read_request q" if "q \<in> set sn" for q
  proof -
    from that assms(2) have "take 6 q = read_request addr len" by blast
    then have "take 1 (take 6 q) = [RMI_READ_ADDR_REPORT_ID]" by (simp add: read_request_def)
    then show ?thesis by (simp add: is_read_request_def)
  qed
  then have "filter is_read_request sn = sn" by (simp add: filter_id_conv)
  then show ?thesis
    by (simp add: read_attempts_def page_select_not_read[OF assms(1)])
qed

section \<open>The example inputs\<close>

lemma example_idle: "reader_idle example_data"
  by (simp add: reader_idle_def probed_def example_data_def rmi_probe_def)

lemma example_sizes:
  "output_report_size example_data = 8" "input_report_size example_data = 12"
  "page example_data = 0"
  by (simp_all add: example_data_def rmi_probe_def)

lemma example_chunk_ok:
  "length payload \<le> 10 \<Longrightarrow> chunk_ok example_data (read_data payload)"
  by (simp add: chunk_ok_def chunk_count_def read_data_def example_sizes unat_of_nat)

lemma chunk_read_data [simp]:
  "length payload < 256 \<Longrightarrow> chunk_count (read_data payload) = length payload"
  "length payload < 256 \<Longrightarrow> chunk_payload (read_data payload) = payload"
  by (simp_all add: chunk_count_def chunk_payload_def read_data_def unat_of_nat)

section \<open>Page selection\<close>

text \<open>
  Claim C10. \<open>rmi_set_page\<close> records the new page only when the report write returns
  exactly \<open>output_report_size\<close>: on a device set up by the probe, the call returns, its
  result is 0 in that case and the write's own result otherwise (a negative error or a
  short count), and the recorded page is the new page in the first case and the old page
  in every other.
\<close>

theorem rmi_set_page_atomic:
  assumes "probed data" "5 \<le> output_report_size data"
  shows "\<exists>ret hdev' data'. rmi_set_page hdev data pg = Some (ret, hdev', data') \<and>
           ret = (if hw_output hdev (length (sent hdev)) = output_report_size data then 0
                  else hw_output hdev (length (sent hdev))) \<and>
           page data' = (if hw_output hdev (length (sent hdev)) = output_report_size data
                         then uint pg else page data)"
proof -
  have sz: "5 \<le> length (report_buf data)" "nat (output_report_size data) \<le> length (report_buf data)"
    using assms by (auto simp: probed_def)
  show ?thesis by (simp add: set_page_unfold[OF sz] Let_def)
qed

text \<open>
  On the example device, selecting page 5: a short write of 3 bytes and a failed write
  (-5) leave page 0 recorded; a full write of 8 bytes records page 5.
\<close>

theorem rmi_set_page_atomic_witness:
  "probed example_data \<and> 5 \<le> output_report_size example_data \<and>
   (\<exists>hdev' data'. rmi_set_page (example_hdev 3 []) example_data 5 = Some (3, hdev', data')
       \<and> page data' = 0) \<and>
   (\<exists>hdev' data'. rmi_set_page (example_hdev (- 5) []) example_data 5 = Some (- 5, hdev', data')
       \<and> page data' = 0) \<and>
   (\<exists>hdev' data'. rmi_set_page (example_hdev 8 []) example_data 5 = Some (0, hdev', data')
       \<and> page data' = 5)"
proof -
  have p: "probed example_data" "5 \<le> output_report_size example_data"
    using example_idle by (simp_all add: reader_idle_def)
  show ?thesis
    using p rmi_set_page_atomic[OF p, of "example_hdev 3 []" 5]
      rmi_set_page_atomic[OF p, of "example_hdev (- 5) []" 5]
      rmi_set_page_atomic[OF p, of "example_hdev 8 []" 5]
    by (simp add: example_hdev_def example_sizes)
qed

section \<open>Reading a block\<close>

text \<open>
  Claim C1. On an idle device \<open>rmi_read_block\<close> sends at most 5 read requests, whatever
  the transport does. When every report write is accepted and the caller's buffer has room
  for the requested length \<open>len > 0\<close>: an attempt whose wait times out before \<open>len\<close> bytes
  have arrived fails and the next attempt is made; after five such attempts the call
  returns \<open>-EAGAIN\<close> with exactly 5 read requests sent; and when fewer than five attempts
  fail and the deliveries that follow are well formed and reach the requested length, the
  call returns 0 with exactly one read request more than the attempts that failed, so also
  when it is the fifth attempt that succeeds. In both cases the rest of the inbound
  script is left as it was.
\<close>

theorem rmi_read_block_attempts:
  assumes idle: "reader_idle data"
  shows "(\<forall>ret buf' hdev' data'.
            rmi_read_block hdev data addr buf len = Some (ret, buf', hdev', data') \<longrightarrow>
            read_attempts hdev hdev' \<le> 5) \<and>
         (0 < len \<and> len \<le> int (length buf) \<and>
          (\<forall>j. hw_output hdev j = output_report_size data) \<and>
          length fails = 5 \<and> (\<forall>reps\<in>set fails. failed_attempt data len reps) \<and>
          inbound hdev = concat (map attempt_script fails) @ rest \<longrightarrow>
            (\<exists>hdev' data'.
               rmi_read_block hdev data addr buf len =
                 Some (- EAGAIN, fold partial_fill fails buf, hdev', data') \<and>
               read_attempts hdev hdev' = 5 \<and> inbound hdev' = rest)) \<and>
         (0 < len \<and> len \<le> int (length buf) \<and>
          (\<forall>j. hw_output hdev j = output_report_size data) \<and>
          length fails' < 5 \<and> (\<forall>reps\<in>set fails'. failed_attempt data len reps) \<and>
          inbound hdev = concat (map attempt_script fails') @ map Delivery reps @ rest' \<and>
          (\<forall>r\<in>set reps. chunk_ok data r) \<and> chunks_complete len reps \<longrightarrow>
            (\<exists>buf' hdev' data'.
               rmi_read_block hdev data addr buf len = Some (0, buf', hdev', data') \<and>
               read_attempts hdev hdev' = Suc (length fails') \<and> inbound hdev' = rest'))"
proof (intro conjI allI impI)
  fix ret buf' hdev' data'
  assume "rmi_read_block hdev data addr buf len = Some (ret, buf', hdev', data')"
  then show "read_attempts hdev hdev' \<le> 5" by (rule read_block_bound[OF idle])
next
  assume a: "0 < len \<and> len \<le> int (length buf) \<and>
    (\<forall>j. hw_output hdev j = output_report_size data) \<and>
    length fails = 5 \<and> (\<forall>reps\<in>set fails. failed_attempt data len reps) \<and>
    inbound hdev = concat (map attempt_script fails) @ rest"
  then have len: "0 < len" "len \<le> int (length buf)"
    and acc: "\<forall>j. hw_output hdev j = output_report_size data"
    and fails: "\<forall>reps\<in>set fails. failed_attempt data len reps" "length fails = 5"
    and inb: "inbound hdev = concat (map attempt_script fails) @ rest" by simp_all
  from read_block_exhausted[OF idle len acc fails inb, of addr]
  obtain sn rb where sn: "length sn = 5" "\<forall>q\<in>set sn. take 6 q = read_request addr len"
    and r: "rmi_read_block hdev data addr buf len =
       Some (- EAGAIN, fold partial_fill fails buf,
             hdev\<lparr>sent := sent hdev @ page_select data addr @ sn, inbound := rest\<rparr>,
             data\<lparr>page := uint (RMI_PAGE addr), report_buf := rb\<rparr>)"
    by blast
  show "\<exists>hdev' data'.
          rmi_read_block hdev data addr buf len =
            Some (- EAGAIN, fold partial_fill fails buf, hdev', data') \<and>
          read_attempts hdev hdev' = 5 \<and> inbound hdev' = rest"
    unfolding r using read_attempts_requests[OF idle sn(2), of hdev rest] sn(1) by simp
next
  assume b: "0 < len \<and> len \<le> int (length buf) \<and>
       (\<forall>j. hw_output hdev j = output_report_size data) \<and>
       length fails' < 5 \<and> (\<forall>reps\<in>set fails'. failed_attempt data len reps) \<and>
       inbound hdev = concat (map attempt_script fails') @ map Delivery reps @ rest' \<and>
       (\<forall>r\<in>set reps. chunk_ok data r) \<and> chunks_complete len reps"
  then have len: "0 < len" "len \<le> int (length buf)"
    and acc: "\<forall>j. hw_output hdev j = output_report_size data"
    and fails: "\<forall>reps\<in>set fails'. failed_attempt data len reps" "length fails' < 5"
    and inb: "inbound hdev = concat (map attempt_script fails') @ map Delivery reps @ rest'"
    and ok: "\<forall>r\<in>set reps. chunk_ok data r" and compl: "chunks_complete len reps"
    by simp_all
  from read_block_retried[OF idle len acc fails ok compl inb, of addr]
  obtain sn rb where sn: "length sn = Suc (length fails')"
      "\<forall>q\<in>set sn. take 6 q = read_request addr len"
    and r: "rmi_read_block hdev data addr buf len =
       Some (0, take (nat len) (concat (map chunk_payload reps)) @ drop (nat len) buf,
             hdev\<lparr>sent := sent hdev @ page_select data addr @ sn, inbound := rest'\<rparr>,
             data\<lparr>page := uint (RMI_PAGE addr), report_buf := rb\<rparr>)"
    by blast
  show "\<exists>buf' hdev' data'.
          rmi_read_block hdev data addr buf len = Some (0, buf', hdev', data') \<and>
          read_attempts hdev hdev' = Suc (length fails') \<and> inbound hdev' = rest'"
    unfolding r using read_attempts_requests[OF idle sn(2), of hdev rest'] sn(1) by simp
qed

text \<open>
  On the example device, a 4-byte read whose first attempt receives 2 bytes before its
  wait times out and whose next three attempts receive nothing: a delivery of 4 bytes in
  the fifth attempt gives 0 after 5 read requests; a fifth timeout gives \<open>-EAGAIN\<close> after
  5 read requests, with the 2 bytes of the first attempt in the buffer.
\<close>

theorem rmi_read_block_attempts_witness:
  "reader_idle example_data \<and>
   (\<exists>buf' hdev' data'.
      rmi_read_block
        (example_hdev 8 [Delivery (read_data [9, 9]), Timeout, Timeout, Timeout, Timeout,
                         Delivery (read_data [1, 2, 3, 4])])
        example_data 0x0011 [0, 0, 0, 0] 4 = Some (0, buf', hdev', data') \<and>
      read_attempts
        (example_hdev 8 [Delivery (read_data [9, 9]), Timeout, Timeout, Timeout, Timeout,
                         Delivery (read_data [1, 2, 3, 4])]) hdev' = 5) \<and>
   (\<exists>hdev' data'.
      rmi_read_block
        (example_hdev 8 [Delivery (read_data [9, 9]), Timeout, Timeout, Timeout, Timeout, Timeout])
        example_data 0x0011 [0, 0, 0, 0] 4 = Some (- EAGAIN, [9, 9, 0, 0], hdev', data') \<and>
      read_attempts
        (example_hdev 8 [Delivery (read_data [9, 9]), Timeout, Timeout, Timeout, Timeout, Timeout])
        hdev' = 5)"
proof -
  let ?s1 = "[Delivery (read_data [9, 9]), Timeout, Timeout, Timeout, Timeout,
              Delivery (read_data [1, 2, 3, 4])]"
  let ?s2 = "[Delivery (read_data [9, 9]), Timeout, Timeout, Timeout, Timeout, Timeout]"
  let ?f1 = "[[read_data [9, 9]], [], [], []]"
  let ?f2 = "[[read_data [9, 9]], [], [], [], []]"
  have ok: "chunk_ok example_data (read_data [1, 2, 3, 4])" by (rule example_chunk_ok) simp
  have c: "chunks_complete 4 [read_data [1, 2, 3, 4]]" by (simp add: chunks_complete_def)
  have f: "\<forall>reps\<in>set ?f2. failed_attempt example_data 4 reps"
    by (simp add: failed_attempt_def example_chunk_ok)
  have acc: "\<forall>j. hw_output (example_hdev 8 s) j = output_report_size example_data" for s
    by (simp add: example_hdev_def example_sizes)
  have inb: "inbound (example_hdev 8 s) = s" for s by (simp add: example_hdev_def)
  have s: "concat (map attempt_script ?f1) @ map Delivery [read_data [1, 2, 3, 4]] @ [] = ?s1"
    "concat (map attempt_script ?f2) @ [] = ?s2"
    by (simp_all add: attempt_script_def)
  have fill: "fold partial_fill ?f2 [0, 0, 0, 0] = [9, 9, 0, 0]"
    by (simp add: partial_fill_def)
  have n: "Suc (Suc (Suc (Suc (Suc 0)))) = 5" by simp
  from rmi_read_block_attempts[OF example_idle, where hdev = "example_hdev 8 ?s1"
      and addr = "0x0011" and buf = "[0, 0, 0, 0]" and len = 4 and fails' = ?f1
      and reps = "[read_data [1, 2, 3, 4]]" and rest' = "[]" and fails = "[]" and rest = "[]"]
    ok c f acc inb s(1)
  have "\<exists>buf' hdev' data'.
      rmi_read_block (example_hdev 8 ?s1) example_data 0x0011 [0, 0, 0, 0] 4 =
        Some (0, buf', hdev', data') \<and>
      read_attempts (example_hdev 8 ?s1) hdev' = 5"
    by (auto simp: n)
  moreover
  from rmi_read_block_attempts[OF example_idle, where hdev = "example_hdev 8 ?s2"
      and addr = "0x0011" and buf = "[0, 0, 0, 0]" and len = 4 and fails = ?f2
      and rest = "[]" and fails' = "[]" and reps = "[]" and rest' = "[]"] f acc inb s(2) fill
  have "\<exists>hdev' data'.
      rmi_read_block (example_hdev 8 ?s2) example_data 0x0011 [0, 0, 0, 0] 4 =
        Some (- EAGAIN, [9, 9, 0, 0], hdev', data') \<and>
      read_attempts (example_hdev 8 ?s2) hdev' = 5"
    by auto
  ultimately show ?thesis using example_idle by blast
qed

text \<open>
  Claim C2, as amended. On an idle device whose report writes are accepted, let a read of
  \<open>len > 0\<close> bytes be answered by well-formed deliveries of which the last is the first to
  bring the total of the byte counts to \<open>len\<close> or more. Then \<open>rmi_read_block\<close> returns 0, the
  first \<open>len\<close> bytes of the buffer are the first \<open>len\<close> bytes of the payloads concatenated in
  delivery order (the last chunk gives only the bytes still needed), the bytes of the
  buffer beyond \<open>len\<close> are unchanged, and whatever follows in the inbound script is not
  consumed: no further delivery is awaited.
\<close>

theorem rmi_read_block_accumulates:
  assumes "reader_idle data"
    and "0 < len" "len \<le> int (length buf)"
    and "\<forall>j. hw_output hdev j = output_report_size data"
    and "\<forall>r\<in>set reps. chunk_ok data r"
    and "chunks_complete len reps"
    and "inbound hdev = map Delivery reps @ rest"
  shows "\<exists>hdev' data'.
     rmi_read_block hdev data addr buf len =
       Some (0, take (nat len) (concat (map chunk_payload reps)) @ drop (nat len) buf,
             hdev', data') \<and>
     inbound hdev' = rest"
proof -
  from assms(7) have inb: "inbound hdev = replicate 0 Timeout @ map Delivery reps @ rest" by simp
  from read_block_success[OF assms(1,2,3,4,5,6) inb, of addr]
  obtain sn rb where
    "rmi_read_block hdev data addr buf len =
       Some (0, take (nat len) (concat (map chunk_payload reps)) @ drop (nat len) buf,
             hdev\<lparr>sent := sent hdev @ page_select data addr @ sn, inbound := rest\<rparr>,
             data\<lparr>page := uint (RMI_PAGE addr), report_buf := rb\<rparr>)"
    by auto
  then show ?thesis by simp
qed

text \<open>
  A read of 10 bytes answered by deliveries of 6 and 4 bytes, with a third delivery
  waiting behind them: the buffer is the 10-byte concatenation and the third delivery is
  still in the script.
\<close>

theorem rmi_read_block_accumulates_witness:
  "reader_idle example_data \<and>
   chunks_complete 10 [read_data [1, 2, 3, 4, 5, 6], read_data [7, 8, 9, 10]] \<and>
   (\<exists>hdev' data'.
      rmi_read_block
        (example_hdev 8 [Delivery (read_data [1, 2, 3, 4, 5, 6]), Delivery (read_data [7, 8, 9, 10]),
                         Delivery (read_data [11, 12])])
        example_data 0x0011 (replicate 10 0) 10 =
        Some (0, [1, 2, 3, 4, 5, 6, 7, 8, 9, 10], hdev', data') \<and>
      inbound hdev' = [Delivery (read_data [11, 12])])"
proof -
  let ?reps = "[read_data [1, 2, 3, 4, 5, 6], read_data [7, 8, 9, 10]]"
  let ?rest = "[Delivery (read_data [11, 12])]"
  let ?h = "example_hdev 8 (map Delivery ?reps @ ?rest)"
  have ok: "\<forall>r\<in>set ?reps. chunk_ok example_data r" by (simp add: example_chunk_ok)
  have c: "chunks_complete 10 ?reps" by (simp add: chunks_complete_def)
  have acc: "\<forall>j. hw_output ?h j = output_report_size example_data"
    by (simp add: example_hdev_def example_sizes)
  have inb: "inbound ?h = map Delivery ?reps @ ?rest" by (simp add: example_hdev_def)
  from rmi_read_block_accumulates[OF example_idle _ _ acc ok c inb,
      where addr = 17 and buf = "replicate 10 0"]
  show ?thesis using example_idle c by simp
qed

text \<open>
  Claim C2 as stated fails when the last chunk carries more than is still needed: for a
  read of 10 bytes answered by two deliveries of 6 bytes each, the second chunk gives 4
  bytes, not the 6 of its count field, and the buffer is not the concatenation of the two
  payloads.
\<close>

theorem rmi_read_block_last_chunk_cut:
  "read_result (rmi_read_block
        (example_hdev 8 [Delivery (read_data [1, 2, 3, 4, 5, 6]),
                         Delivery (read_data [7, 8, 9, 10, 11, 12])])
        example_data 0x0011 (replicate 10 0) 10) = Some (0, [1, 2, 3, 4, 5, 6, 7, 8, 9, 10], []) \<and>
   [1, 2, 3, 4, 5, 6, 7, 8, 9, 10] \<noteq>
     chunk_payload (read_data [1, 2, 3, 4, 5, 6]) @ chunk_payload (read_data [7, 8, 9, 10, 11, 12])"
proof -
  let ?reps = "[read_data [1, 2, 3, 4, 5, 6], read_data [7, 8, 9, 10, 11, 12]]"
  let ?h = "example_hdev 8 (replicate 0 Timeout @ map Delivery ?reps @ [])"
  have ok: "\<forall>r\<in>set ?reps. chunk_ok example_data r" by (simp add: example_chunk_ok)
  have c: "chunks_complete 10 ?reps" by (simp add: chunks_complete_def)
  have acc: "\<forall>j. hw_output ?h j = output_report_size example_data"
    by (simp add: example_hdev_def example_sizes)
  have inb: "inbound ?h = replicate 0 Timeout @ map Delivery ?reps @ []" by (simp add: example_hdev_def)
  from read_block_success[OF example_idle _ _ acc ok c inb,
      where addr = 17 and buf = "replicate 10 0"]
  show ?thesis by (auto simp: read_result_def)
qed

section \<open>Attention reports\<close>

lemmas example_touchpad_simps =
  example_touchpad_def example_data_def rmi_probe_def rmi_function_zero_def
  RMI_STARTED_def BIT_def DIV_ROUND_UP_def

text \<open>
  Claim C3 (not met by the code). For a live finger with the five bytes
  \<open>12 34 5F 9A 40\<close>, the decoder reports X = 0x127: the low bits come from
  \<open>touch_data[2] & 0x07\<close>, three bits of the low nibble, where the full nibble gives
  0x12F. The first width is \<open>touch_data[3] & 0x07 = 2\<close>, where the low nibble is 0xA, so the
  contact is reported as not wide with widths 9 and 2. Y takes the whole high nibble:
  Y = 4095 - 0x345.
\<close>

theorem rmi_f11_process_touch_low_nibble:
  "map_option input
     (rmi_f11_process_touch (example_touchpad 1) 0 1 [0x12, 0x34, 0x5F, 0x9A, 0x40]) =
   Some [MtSlot 0, MtReportSlotState True,
         EvAbs ABS_MT_POSITION_X 0x127, EvAbs ABS_MT_POSITION_Y (4095 - 0x345),
         EvAbs ABS_MT_ORIENTATION 0, EvAbs ABS_MT_PRESSURE 0x40,
         EvAbs ABS_MT_TOUCH_MAJOR 9, EvAbs ABS_MT_TOUCH_MINOR 2]"
  by (simp add: rmi_f11_process_touch_def peek_def example_touchpad_simps Let_def)

text \<open>
  Claim C4 (not met by the code). With four fingers the report size is
  \<open>4 * 5 + DIV_ROUND_UP 4 4 = 21\<close>, one status byte and twenty data bytes, but the decoder
  starts the finger data at offset \<open>(4 >> 2) + 1 = 2\<close>. On a 21-byte report whose finger 0
  is live, X comes from byte 2 (0x10), not from byte 1 (0xEE), the byte right after the
  status byte; on a 21-byte report whose finger 3 is live, the decoder reads byte 21, past
  the end of the report.
\<close>

theorem rmi_f11_input_event_four_fingers:
  "report_size (f11 (example_touchpad 4)) = 21 \<and> DIV_ROUND_UP 4 4 = 1 \<and>
   decode_result (rmi_f11_input_event (example_touchpad 4) 1
      ([0x01, 0xEE, 0x10, 0x20, 0x00, 0x00, 0x30] @ replicate 14 0) 21) =
     Some (21, [MtSlot 0, MtReportSlotState True,
                EvAbs ABS_MT_POSITION_X 0x100, EvAbs ABS_MT_POSITION_Y (4095 - 0x200),
                EvAbs ABS_MT_ORIENTATION 0, EvAbs ABS_MT_PRESSURE 0x30,
                EvAbs ABS_MT_TOUCH_MAJOR 0, EvAbs ABS_MT_TOUCH_MINOR 0,
                MtSlot 1, MtReportSlotState False, MtSlot 2, MtReportSlotState False,
                MtSlot 3, MtReportSlotState False, MtSyncFrame, InputSync]) \<and>
   rmi_f11_input_event (example_touchpad 4) 1 (0x40 # replicate 20 0) 21 = None"
  by code_simp

text \<open>
  Claim C5 (not met by the code). \<open>rmi_f11_input_event\<close> returns 0 without decoding when
  fewer bytes are left than its report size, but \<open>rmi_f30_input_event\<close> never looks at
  \<open>size\<close>: on the attention report \<open>0C 02\<close>, which flags the button function and carries
  no payload, the F11 decoder skips and the F30 decoder reads the byte after the end of
  the report.
\<close>

theorem rmi_f30_input_event_short_report:
  "decode_result (rmi_f11_input_event (example_touchpad 1) 0x02 [] 0) = Some (0, []) \<and>
   rmi_f30_input_event (example_touchpad 1) 0x02 [] 0 = None \<and>
   rmi_input_event (example_touchpad 1) [0x0c, 0x02] = None"
  by (simp add: rmi_input_event_def rmi_f11_input_event_def rmi_f30_input_event_def peek_def
      decode_result_def example_touchpad_simps)

section \<open>Mouse reports\<close>

text \<open>
  Claim C9, as amended. For every inbound report with the mouse report id,
  \<open>rmi_raw_event\<close> returns 0 with the transport untouched: nothing is sent from the
  report-delivery path. When the second byte of the report is zero the reset work is
  queued; when it is not zero the device context is left exactly as it was, so nothing
  is scheduled. When the worker then runs the queued work, the set-mode feature report
  \<open>0F 01\<close> (attention reports) is sent.
\<close>

theorem rmi_raw_event_mouse_reset:
  assumes "2 \<le> length data" "data ! 0 = RMI_MOUSE_REPORT_ID"
  shows "rmi_raw_event hdev hdata data =
           Some (0, hdev, if data ! 1 = 0 then hdata\<lparr>reset_work := True\<rparr> else hdata) \<and>
         features (fst (run_reset_work hdev (hdata\<lparr>reset_work := True\<rparr>))) =
           features hdev @ [[RMI_SET_RMI_MODE_REPORT_ID, RMI_MODE_ATTN_REPORTS]]"
proof -
  have "snd (rmi_schedule_reset hdata) = hdata\<lparr>reset_work := True\<rparr>"
    by (cases "reset_work hdata") (simp_all add: rmi_schedule_reset_def)
  moreover have "data \<noteq> []" using assms by auto
  ultimately show ?thesis
    using assms
    by (simp add: rmi_raw_event_def peek_def run_reset_work_def rmi_reset_work_def
        rmi_set_mode_def Let_def RMI_MOUSE_REPORT_ID_def RMI_READ_DATA_REPORT_ID_def
        RMI_ATTN_REPORT_ID_def)
qed

text \<open>
  On the example device: the mouse report \<open>01 00 05 FB\<close> (no button, a movement) queues
  the reset work, whose run sends \<open>0F 01\<close>; the mouse report \<open>01 02 00 00\<close> (right button
  down) changes nothing.
\<close>

theorem rmi_raw_event_mouse_reset_witness:
  "2 \<le> length [0x01, 0x00, 0x05, 0xFB :: u8] \<and>
   reset_queued (rmi_raw_event (example_hdev 8 []) example_data [0x01, 0x00, 0x05, 0xFB]) =
     Some True \<and>
   features (fst (run_reset_work (example_hdev 8 []) (example_data\<lparr>reset_work := True\<rparr>))) =
     [[0x0f, 0x01]] \<and>
   rmi_raw_event (example_hdev 8 []) example_data [0x01, 0x02, 0x00, 0x00] =
     Some (0, example_hdev 8 [], example_data)"
  using rmi_raw_event_mouse_reset[of "[0x01, 0x00, 0x05, 0xFB]" "example_hdev 8 []" example_data]
    rmi_raw_event_mouse_reset[of "[0x01, 0x02, 0x00, 0x00]" "example_hdev 8 []" example_data]
  by (simp add: reset_queued_def RMI_MOUSE_REPORT_ID_def RMI_SET_RMI_MODE_REPORT_ID_def
      RMI_MODE_ATTN_REPORTS_def example_hdev_def)

text \<open>
  Claim C9 as stated fails for a mouse report whose second byte is not zero: the report
  \<open>01 01 00 00\<close> (left button down) leaves the reset work unqueued.
\<close>

theorem rmi_raw_event_mouse_button_no_reset:
  "reset_queued (rmi_raw_event (example_hdev 8 []) example_data [0x01, 0x01, 0x00, 0x00]) =
     Some False"
  by (simp add: reset_queued_def rmi_raw_event_def peek_def example_data_def rmi_probe_def
      RMI_MOUSE_REPORT_ID_def RMI_READ_DATA_REPORT_ID_def RMI_ATTN_REPORT_ID_def)

section \<open>The PDT scan\<close>

lemma and_255: "(w::'a::len word) AND 255 = take_bit 8 w"
  by (simp add: take_bit_eq_mask mask_eq_exp_minus_1)

lemma addr_bytes:
  "unat (ucast ((addr::u16) AND 0xFF) :: u8) + 256 * unat (ucast (drop_bit 8 addr AND 0xFF) :: u8) = unat addr"
proof -
  have "unat addr < 65536" using unsigned_less[of addr, where 'a = nat] by simp
  have "unat (ucast (addr AND 0xFF) :: u8) = take_bit 8 (unat addr)"
    by (simp add: and_255 unsigned_ucast_eq unsigned_take_bit_eq)
  moreover have "unat (ucast (drop_bit 8 addr AND 0xFF) :: u8) = take_bit 8 (drop_bit 8 (unat addr))"
    by (simp add: and_255 unsigned_ucast_eq unsigned_take_bit_eq unat_drop_bit_eq)
  ultimately show ?thesis using \<open>unat addr < 65536\<close>
    by (simp add: take_bit_eq_mod drop_bit_eq_div)
qed

lemma uint_word_of_int_small:
  "0 \<le> x \<Longrightarrow> x < 65536 \<Longrightarrow> uint (word_of_int x :: u16) = x"
  by (simp add: uint_word_of_int take_bit_eq_mod)

lemma page_of_word_of_int:
  assumes "0 \<le> x" "x < 65536"
  shows "uint (RMI_PAGE (word_of_int x)) = x div 256"
proof -
  have "take_bit 16 x = x" using assms by (simp add: take_bit_eq_mod)
  then have "uint (RMI_PAGE (word_of_int x)) = take_bit 8 (drop_bit 8 x)"
    by (simp add: RMI_PAGE_def and_255 unsigned_take_bit_eq unsigned_drop_bit_eq uint_word_of_int_eq)
  then show ?thesis using assms
    by (simp add: take_bit_eq_mod drop_bit_eq_div)
qed

lemma pdt_range_uint:
  assumes "p \<le> 255"
  shows "uint (RMI4_PAGE_SIZE * of_nat p + PDT_START_SCAN_LOCATION) = 256 * int p + 233"
    "uint (RMI4_PAGE_SIZE * of_nat p + PDT_END_SCAN_LOCATION) = 256 * int p + 5"
  using assms
  by (simp_all add: RMI4_PAGE_SIZE_def PDT_START_SCAN_LOCATION_def PDT_END_SCAN_LOCATION_def
      uint_word_ariths take_bit_eq_mod unsigned_of_nat)

lemma read_addrs_append [simp]: "read_addrs (a @ b) = read_addrs a @ read_addrs b"
  by (simp add: read_addrs_def)

lemma read_addrs_Nil [simp]: "read_addrs [] = []"
  by (simp add: read_addrs_def)

lemma read_addrs_page_select [simp]: "reader_idle d \<Longrightarrow> read_addrs (page_select d addr) = []"
  by (simp add: read_addrs_def page_select_not_read)

lemma read_addrs_request:
  assumes "take 6 q = read_request addr len"
  shows "read_addrs [q] = [unat addr]"
proof -
  from assms have "take 1 (take 6 q) = [RMI_READ_ADDR_REPORT_ID]" by (simp add: read_request_def)
  then have r: "is_read_request q" by (simp add: is_read_request_def)
  have "take 6 q ! 2 = q ! 2" "take 6 q ! 3 = q ! 3" by simp_all
  with assms have "q ! 2 = ucast (addr AND 0xFF)" "q ! 3 = ucast (drop_bit 8 addr AND 0xFF)"
    by (simp_all add: read_request_def)
  then have "request_addr q = unat addr" by (simp add: request_addr_def addr_bytes)
  with r show ?thesis by (simp add: read_addrs_def)
qed

lemma read_entry:
  assumes idle: "reader_idle d"
    and acc: "\<forall>j. hw_output hdev j = output_report_size d"
    and isz: "8 \<le> input_report_size d"
    and e6: "length e = 6" and b6: "length entry = 6"
    and inb: "inbound hdev = pdt_reply e # rest"
  shows "\<exists>sn rb. length rb = length (report_buf d) \<and> read_addrs sn = [unat addr] \<and>
     rmi_read_block hdev d addr entry 6 =
       Some (0, e, hdev\<lparr>sent := sent hdev @ sn, inbound := rest\<rparr>,
             d\<lparr>page := uint (RMI_PAGE addr), report_buf := rb\<rparr>)"
proof -
  have ok: "\<forall>r\<in>set [read_data e]. chunk_ok d r"
    using isz e6 by (simp add: chunk_ok_def chunk_count_def read_data_def)
  have c: "chunks_complete 6 [read_data e]" using e6 by (simp add: chunks_complete_def)
  have inb': "inbound hdev = replicate 0 Timeout @ map Delivery [read_data e] @ rest"
    using inb by (simp add: pdt_reply_def)
  from read_block_success[OF idle _ _ acc ok c inb', of entry addr] b6
  obtain sn rb where sn: "length sn = Suc 0" "\<forall>q\<in>set sn. take 6 q = read_request addr 6"
    and rb: "length rb = length (report_buf d)"
    and r: "rmi_read_block hdev d addr entry 6 =
       Some (0, take 6 (concat (map chunk_payload [read_data e])) @ drop 6 entry,
             hdev\<lparr>sent := sent hdev @ page_select d addr @ sn, inbound := rest\<rparr>,
             d\<lparr>page := uint (RMI_PAGE addr), report_buf := rb\<rparr>)"
    by auto
  from sn obtain q where q: "sn = [q]" "take 6 q = read_request addr 6"
    by (cases sn) auto
  have "read_addrs (page_select d addr @ sn) = [unat addr]"
    using idle q read_addrs_request[OF q(2)] by simp
  moreover have "take 6 (concat (map chunk_payload [read_data e])) @ drop 6 entry = e"
    using e6 b6 by simp
  ultimately show ?thesis using r rb
    by (intro exI[of _ "page_select d addr @ sn"] exI[of _ rb]) simp
qed

lemma reg_commute:
  "rmi_register_function (d\<lparr>page := x, report_buf := rb\<rparr>) e p c =
   (rmi_register_function d e p c)\<lparr>page := x, report_buf := rb\<rparr>"
  by (simp add: rmi_register_function_def Let_def)

lemma register_all_commute:
  "register_all (d\<lparr>page := x, report_buf := rb\<rparr>) c xs =
   (fst (register_all d c xs)\<lparr>page := x, report_buf := rb\<rparr>, snd (register_all d c xs))"
  by (induction d c xs rule: register_all.induct) (simp_all add: reg_commute)

lemma register_all_append:
  "register_all d c (xs @ ys) =
   register_all (fst (register_all d c xs)) (snd (register_all d c xs)) ys"
  by (induction d c xs rule: register_all.induct) simp_all

lemma reader_idle_register [simp]:
  "reader_idle (rmi_register_function d e p c) = reader_idle d"
  by (simp add: rmi_register_function_def reader_idle_def probed_def Let_def)

lemma sizes_register [simp]:
  "output_report_size (rmi_register_function d e p c) = output_report_size d"
  "input_report_size (rmi_register_function d e p c) = input_report_size d"
  "report_buf (rmi_register_function d e p c) = report_buf d"
  "page (rmi_register_function d e p c) = page d"
  by (simp_all add: rmi_register_function_def Let_def)

lemma reader_idle_io [simp]:
  "length rb = length (report_buf d) \<Longrightarrow>
   reader_idle (d\<lparr>page := x, report_buf := rb\<rparr>) = reader_idle d"
  by (simp add: reader_idle_def probed_def)

lemma scan_page_step:
  assumes "pdt_end \<le> i"
    and "rmi_read_block hdev d (word_of_int i) entry 6 = Some (0, e, h1, d1)"
  shows "scan_page hdev d p i pdt_end entry retval has c =
     (if end_of_pdt e then Some (0, e, h1, d1, has, c)
      else scan_page h1 (rmi_register_function d1 e p c) p (i - 6) pdt_end e 0 True
             (c + unat (pdt_interrupt_source_count e)))"
  by (subst scan_page.simps) (simp add: assms end_of_pdt_def)

lemma scan_page_table:
  assumes "reader_idle d"
    and "\<forall>j. hw_output hdev j = output_report_size d"
    and "8 \<le> input_report_size d"
    and "p \<le> 255"
    and "j + length tab \<le> 39"
    and "\<forall>e\<in>set tab. length e = 6"
    and "\<forall>e\<in>set (butlast tab). \<not> end_of_pdt e"
    and "tab \<noteq> [] \<longrightarrow> j + length tab < 39 \<longrightarrow> end_of_pdt (last tab)"
    and "tab = [] \<longrightarrow> j = 39"
    and "length entry = 6"
    and "inbound hdev = map pdt_reply tab @ rest"
    and "i = 256 * int p + 233 - 6 * int j"
    and "pdt_end = 256 * int p + 5"
  shows "\<exists>sn rb entry' rv.
     length rb = length (report_buf d) \<and> length entry' = 6 \<and>
     (tab \<noteq> [] \<longrightarrow> rv = 0) \<and> (tab = [] \<longrightarrow> rv = retval) \<and>
     read_addrs sn = map (\<lambda>k. 256 * p + 233 - 6 * (j + k)) [0..<length tab] \<and>
     scan_page hdev d p i pdt_end entry retval has c =
       Some (rv, entry', hdev\<lparr>sent := sent hdev @ sn, inbound := rest\<rparr>,
             fst (register_all d c (functions_on p tab))
               \<lparr>page := (if tab = [] then page d else int p), report_buf := rb\<rparr>,
             has \<or> (\<exists>e\<in>set tab. \<not> end_of_pdt e),
             snd (register_all d c (functions_on p tab)))"
  using assms
proof (induction tab arbitrary: hdev d j i entry retval has c)
  case Nil
  then have "i < pdt_end" by simp
  then have "scan_page hdev d p i pdt_end entry retval has c = Some (retval, entry, hdev, d, has, c)"
    by (subst scan_page.simps) simp
  then show ?case using Nil.prems
    by (intro exI[of _ "[]"] exI[of _ "report_buf d"] exI[of _ entry] exI[of _ retval])
       (simp add: functions_on_def)
next
  case (Cons e tab)
  let ?addr = "word_of_int i :: u16"
  have j: "j \<le> 38" using Cons.prems(5) by simp
  have i: "0 \<le> i" "i < 65536" "pdt_end \<le> i" using j Cons.prems(4,12,13) by auto
  have "i div 256 = int p" using j Cons.prems(12) by auto
  then have pg: "uint (RMI_PAGE ?addr) = int p"
    using page_of_word_of_int[OF i(1,2)] by simp
  have "nat i = 256 * p + 233 - 6 * j" using j Cons.prems(12) by auto
  then have ua: "unat ?addr = 256 * p + 233 - 6 * j"
    using uint_word_of_int_small[OF i(1,2)] by (simp add: unat_eq_nat_uint)
  have e6: "length e = 6" using Cons.prems(6) by simp
  have inb: "inbound hdev = pdt_reply e # (map pdt_reply tab @ rest)" using Cons.prems(11) by simp
  from read_entry[OF Cons.prems(1,2,3) e6 Cons.prems(10) inb, of ?addr]
  obtain sn rb where rb: "length rb = length (report_buf d)" and sn: "read_addrs sn = [256 * p + 233 - 6 * j]"
    and rd: "rmi_read_block hdev d ?addr entry 6 =
       Some (0, e, hdev\<lparr>sent := sent hdev @ sn, inbound := map pdt_reply tab @ rest\<rparr>,
             d\<lparr>page := int p, report_buf := rb\<rparr>)"
    unfolding pg ua by blast
  let ?h1 = "hdev\<lparr>sent := sent hdev @ sn, inbound := map pdt_reply tab @ rest\<rparr>"
  let ?d1 = "d\<lparr>page := int p, report_buf := rb\<rparr>"
  note step = scan_page_step[OF i(3) rd, of p retval has c]
  show ?case
  proof (cases "end_of_pdt e")
    case True
    then have tab: "tab = []" using Cons.prems(7) by (cases tab) auto
    have "scan_page hdev d p i pdt_end entry retval has c = Some (0, e, ?h1, ?d1, has, c)"
      using True by (simp only: step if_True)
    then show ?thesis using tab True rb sn e6
      by (intro exI[of _ sn] exI[of _ rb] exI[of _ e] exI[of _ 0]) (simp add: functions_on_def)
  next
    case False
    let ?d2 = "rmi_register_function ?d1 e p c"
    let ?c2 = "c + unat (pdt_interrupt_source_count e)"
    have step': "scan_page hdev d p i pdt_end entry retval has c =
        scan_page ?h1 ?d2 p (i - 6) pdt_end e 0 True ?c2"
      using False by (simp only: step if_False)
    have p9: "tab = [] \<longrightarrow> Suc j = 39" using Cons.prems(5,8) False by auto
    have p8: "tab \<noteq> [] \<longrightarrow> Suc j + length tab < 39 \<longrightarrow> end_of_pdt (last tab)"
      using Cons.prems(8) by auto
    have p7: "\<forall>e\<in>set (butlast tab). \<not> end_of_pdt e"
      using Cons.prems(7) by (cases tab) auto
    have p12: "i - 6 = 256 * int p + 233 - 6 * int (Suc j)" using Cons.prems(12) by simp
    have "\<exists>sn' rb' entry' rv.
       length rb' = length (report_buf ?d2) \<and> length entry' = 6 \<and>
       (tab \<noteq> [] \<longrightarrow> rv = 0) \<and> (tab = [] \<longrightarrow> rv = 0) \<and>
       read_addrs sn' = map (\<lambda>k. 256 * p + 233 - 6 * (Suc j + k)) [0..<length tab] \<and>
       scan_page ?h1 ?d2 p (i - 6) pdt_end e 0 True ?c2 =
         Some (rv, entry', ?h1\<lparr>sent := sent ?h1 @ sn', inbound := rest\<rparr>,
               fst (register_all ?d2 ?c2 (functions_on p tab))
                 \<lparr>page := (if tab = [] then page ?d2 else int p), report_buf := rb'\<rparr>,
               True \<or> (\<exists>e\<in>set tab. \<not> end_of_pdt e),
               snd (register_all ?d2 ?c2 (functions_on p tab)))"
      using Cons.prems(1,2,3,4,5,6,13) rb e6 p7 p8 p9 p12
      by (intro Cons.IH) simp_all
    then obtain sn' rb' entry' rv where rb0: "length rb' = length (report_buf ?d2)"
      and e': "length entry' = 6"
      and rv: "(tab \<noteq> [] \<longrightarrow> rv = 0) \<and> (tab = [] \<longrightarrow> rv = 0)"
      and sn': "read_addrs sn' = map (\<lambda>k. 256 * p + 233 - 6 * (Suc j + k)) [0..<length tab]"
      and res0: "scan_page ?h1 ?d2 p (i - 6) pdt_end e 0 True ?c2 =
         Some (rv, entry', ?h1\<lparr>sent := sent ?h1 @ sn', inbound := rest\<rparr>,
               fst (register_all ?d2 ?c2 (functions_on p tab))
                 \<lparr>page := (if tab = [] then page ?d2 else int p), report_buf := rb'\<rparr>,
               True \<or> (\<exists>e\<in>set tab. \<not> end_of_pdt e),
               snd (register_all ?d2 ?c2 (functions_on p tab)))"
      by blast
    from rv have rv0: "rv = 0" by blast
    have rb': "length rb' = length (report_buf d)" using rb0 rb by simp
    have res: "scan_page ?h1 ?d2 p (i - 6) pdt_end e 0 True ?c2 =
         Some (0, entry', hdev\<lparr>sent := sent hdev @ sn @ sn', inbound := rest\<rparr>,
               fst (register_all ?d2 ?c2 (functions_on p tab))\<lparr>page := int p, report_buf := rb'\<rparr>,
               True, snd (register_all ?d2 ?c2 (functions_on p tab)))"
      unfolding res0 rv0 by simp
    have reg: "register_all ?d2 ?c2 (functions_on p tab) =
        (fst (register_all d c (functions_on p (e # tab)))\<lparr>page := int p, report_buf := rb\<rparr>,
         snd (register_all d c (functions_on p (e # tab))))"
      using False by (simp add: functions_on_def reg_commute register_all_commute)
    have addrs: "read_addrs (sn @ sn') = map (\<lambda>k. 256 * p + 233 - 6 * (j + k)) [0..<length (e # tab)]"
      using sn sn' by (simp add: upt_rec[of 0 "Suc (length tab)"] map_Suc_upt[symmetric] del: upt_Suc)
    show ?thesis
      unfolding step' res reg
      using rb' e' addrs False
      by (intro exI[of _ "sn @ sn'"] exI[of _ rb'] exI[of _ entry'] exI[of _ 0]) simp
  qed
qed

lemma register_all_io [simp]:
  "reader_idle (fst (register_all d c xs)) = reader_idle d"
  "output_report_size (fst (register_all d c xs)) = output_report_size d"
  "input_report_size (fst (register_all d c xs)) = input_report_size d"
  "report_buf (fst (register_all d c xs)) = report_buf d"
  "page (fst (register_all d c xs)) = page d"
  by (induction d c xs rule: register_all.induct) simp_all

lemma scan_pages_step:
  assumes "p \<le> 255"
    and "scan_page hdev d p (256 * int p + 233) (256 * int p + 5) entry 0 False c =
           Some (0, entry', h1, d1, has, c1)"
  shows "scan_pages hdev d p entry c =
     (if \<not> has then Some (0, h1, d1) else scan_pages h1 d1 (p + 1) entry' c1)"
  by (subst scan_pages.simps) (simp add: assms RMI4_MAX_PAGE_def Let_def pdt_range_uint)

lemma scan_pages_tables:
  assumes "reader_idle d"
    and "\<forall>j. hw_output hdev j = output_report_size d"
    and "8 \<le> input_report_size d"
    and "p + length tabs \<le> 256"
    and "\<forall>tab\<in>set tabs. page_table tab"
    and "\<forall>tab\<in>set (butlast tabs). has_function tab"
    and "tabs \<noteq> [] \<longrightarrow> p + length tabs < 256 \<longrightarrow> \<not> has_function (last tabs)"
    and "tabs = [] \<longrightarrow> p = 256"
    and "length entry = 6"
    and "inbound hdev = concat (map (map pdt_reply) tabs) @ rest"
  shows "\<exists>sn rb.
     length rb = length (report_buf d) \<and> read_addrs sn = scan_addrs p tabs \<and>
     scan_pages hdev d p entry c =
       Some (0, hdev\<lparr>sent := sent hdev @ sn, inbound := rest\<rparr>,
             fst (register_all d c (functions_from p tabs))
               \<lparr>page := (if tabs = [] then page d else int (p + length tabs) - 1),
                report_buf := rb\<rparr>)"
  using assms
proof (induction tabs arbitrary: hdev d p entry c)
  case Nil
  then have "\<not> p \<le> RMI4_MAX_PAGE" by (simp add: RMI4_MAX_PAGE_def)
  then have "scan_pages hdev d p entry c = Some (0, hdev, d)"
    by (subst scan_pages.simps) simp
  then show ?case using Nil.prems
    by (intro exI[of _ "[]"] exI[of _ "report_buf d"]) simp
next
  case (Cons tab tabs)
  have p: "p \<le> 255" using Cons.prems(4) by simp
  have pt: "page_table tab" using Cons.prems(5) by simp
  have inb: "inbound hdev = map pdt_reply tab @ (concat (map (map pdt_reply) tabs) @ rest)"
    using Cons.prems(10) by simp
  have "\<exists>sn rb entry' rv.
     length rb = length (report_buf d) \<and> length entry' = 6 \<and>
     (tab \<noteq> [] \<longrightarrow> rv = 0) \<and> (tab = [] \<longrightarrow> rv = 0) \<and>
     read_addrs sn = map (\<lambda>k. 256 * p + 233 - 6 * (0 + k)) [0..<length tab] \<and>
     scan_page hdev d p (256 * int p + 233) (256 * int p + 5) entry 0 False c =
       Some (rv, entry', hdev\<lparr>sent := sent hdev @ sn, inbound := concat (map (map pdt_reply) tabs) @ rest\<rparr>,
             fst (register_all d c (functions_on p tab))
               \<lparr>page := (if tab = [] then page d else int p), report_buf := rb\<rparr>,
             False \<or> (\<exists>e\<in>set tab. \<not> end_of_pdt e),
             snd (register_all d c (functions_on p tab)))"
    using Cons.prems(1,2,3,9) p pt inb
    by (intro scan_page_table) (auto simp: page_table_def)
  then obtain sn rb entry' rv where rb: "length rb = length (report_buf d)" and e': "length entry' = 6"
    and rv: "(tab \<noteq> [] \<longrightarrow> rv = 0) \<and> (tab = [] \<longrightarrow> rv = 0)"
    and sn: "read_addrs sn = map (\<lambda>k. 256 * p + 233 - 6 * (0 + k)) [0..<length tab]"
    and sp0: "scan_page hdev d p (256 * int p + 233) (256 * int p + 5) entry 0 False c =
       Some (rv, entry', hdev\<lparr>sent := sent hdev @ sn, inbound := concat (map (map pdt_reply) tabs) @ rest\<rparr>,
             fst (register_all d c (functions_on p tab))
               \<lparr>page := (if tab = [] then page d else int p), report_buf := rb\<rparr>,
             False \<or> (\<exists>e\<in>set tab. \<not> end_of_pdt e),
             snd (register_all d c (functions_on p tab)))"
    by blast
  let ?h1 = "hdev\<lparr>sent := sent hdev @ sn, inbound := concat (map (map pdt_reply) tabs) @ rest\<rparr>"
  let ?d1 = "fst (register_all d c (functions_on p tab))\<lparr>page := int p, report_buf := rb\<rparr>"
  let ?c1 = "snd (register_all d c (functions_on p tab))"
  from rv have rv0: "rv = 0" by blast
  have tne: "tab \<noteq> []" using pt by (simp add: page_table_def)
  have sp: "scan_page hdev d p (256 * int p + 233) (256 * int p + 5) entry 0 False c =
       Some (0, entry', ?h1, ?d1, has_function tab, ?c1)"
    unfolding sp0 rv0 using tne by (simp add: has_function_def)
  note step = scan_pages_step[OF p sp]
  have sn0: "read_addrs sn = map (\<lambda>k. 256 * p + 233 - 6 * k) [0..<length tab]" using sn by simp
  show ?case
  proof (cases "has_function tab")
    case False
    then have tabs: "tabs = []" using Cons.prems(6) by (cases tabs) auto
    have "scan_pages hdev d p entry c = Some (0, ?h1, ?d1)"
      using False by (simp only: step not_False_eq_True if_True)
    then show ?thesis using tabs rb sn0
      by (intro exI[of _ sn] exI[of _ rb]) simp
  next
    case True
    have step': "scan_pages hdev d p entry c = scan_pages ?h1 ?d1 (p + 1) entry' ?c1"
      using True by (simp only: step not_True_eq_False if_False)
    have p8: "tabs = [] \<longrightarrow> p + 1 = 256" using Cons.prems(4,7) True by auto
    have p7: "tabs \<noteq> [] \<longrightarrow> p + 1 + length tabs < 256 \<longrightarrow> \<not> has_function (last tabs)"
      using Cons.prems(7) by auto
    have p6: "\<forall>tab\<in>set (butlast tabs). has_function tab"
      using Cons.prems(6) by (cases tabs) auto
    have "\<exists>sn' rb'.
       length rb' = length (report_buf ?d1) \<and> read_addrs sn' = scan_addrs (p + 1) tabs \<and>
       scan_pages ?h1 ?d1 (p + 1) entry' ?c1 =
         Some (0, ?h1\<lparr>sent := sent ?h1 @ sn', inbound := rest\<rparr>,
               fst (register_all ?d1 ?c1 (functions_from (p + 1) tabs))
                 \<lparr>page := (if tabs = [] then page ?d1 else int (p + 1 + length tabs) - 1),
                  report_buf := rb'\<rparr>)"
      using Cons.prems(1,2,3,4,5) rb e' p6 p7 p8
      by (intro Cons.IH) simp_all
    then obtain sn' rb' where rb': "length rb' = length (report_buf ?d1)"
      and sn': "read_addrs sn' = scan_addrs (p + 1) tabs"
      and res0: "scan_pages ?h1 ?d1 (p + 1) entry' ?c1 =
         Some (0, ?h1\<lparr>sent := sent ?h1 @ sn', inbound := rest\<rparr>,
               fst (register_all ?d1 ?c1 (functions_from (p + 1) tabs))
                 \<lparr>page := (if tabs = [] then page ?d1 else int (p + 1 + length tabs) - 1),
                  report_buf := rb'\<rparr>)"
      by blast
    have reg: "fst (register_all ?d1 ?c1 (functions_from (p + 1) tabs)) =
        fst (register_all d c (functions_from p (tab # tabs)))\<lparr>page := int p, report_buf := rb\<rparr>"
      by (simp add: register_all_commute register_all_append)
    have pgs: "(if tabs = [] then page ?d1 else int (p + 1 + length tabs) - 1) =
        int (p + length (tab # tabs)) - 1" by simp
    show ?thesis
      unfolding step' res0 reg pgs
      using rb rb' sn0 sn'
      by (intro exI[of _ "sn @ sn'"] exI[of _ rb']) simp

  qed
qed

lemma functions_from_found: "map snd (functions_from p tabs) = functions_found tabs"
  by (induction tabs arbitrary: p) (simp_all add: functions_found_def functions_on_def comp_def)

lemma register_all_no_f11:
  "\<forall>x\<in>set xs. pdt_function_number (snd x) \<noteq> 0x11 \<Longrightarrow>
   f11 (fst (register_all d c xs)) = f11 d"
  by (induction d c xs rule: register_all.induct)
     (simp_all add: rmi_register_function_def Let_def)

lemma register_all_no_f30:
  "\<forall>x\<in>set xs. pdt_function_number (snd x) \<noteq> 0x30 \<Longrightarrow>
   f30 (fst (register_all d c xs)) = f30 d"
  by (induction d c xs rule: register_all.induct)
     (simp_all add: rmi_register_function_def Let_def)

lemma register_all_f11:
  assumes "last_entry_of 0x11 (map snd xs) j"
  shows "interrupt_base (f11 (fst (register_all d c xs))) =
         c + interrupt_sources (take j (map snd xs))"
  using assms
proof (induction d c xs arbitrary: j rule: register_all.induct)
  case (1 d c)
  then show ?case by (simp add: last_entry_of_def)
next
  case (2 d c p e xs)
  show ?case
  proof (cases j)
    case 0
    with "2.prems" have e: "pdt_function_number e = 0x11"
      and no: "\<forall>i. 0 < i \<and> i < Suc (length xs) \<longrightarrow> pdt_function_number (map snd ((p, e) # xs) ! i) \<noteq> 0x11"
      by (simp_all add: last_entry_of_def)
    have "\<forall>x\<in>set xs. pdt_function_number (snd x) \<noteq> 0x11"
    proof
      fix x assume "x \<in> set xs"
      then obtain i where "i < length xs" "xs ! i = x" by (auto simp: in_set_conv_nth)
      with no[rule_format, of "Suc i"] show "pdt_function_number (snd x) \<noteq> 0x11" by auto
    qed
    from register_all_no_f11[OF this] e 0 show ?thesis
      by (simp add: rmi_register_function_def Let_def interrupt_sources_def)
  next
    case (Suc j')
    with "2.prems" have "last_entry_of 0x11 (map snd xs) j'"
      by (auto simp: last_entry_of_def)
    from "2.IH"[OF this] Suc show ?thesis by (simp add: interrupt_sources_def)
  qed
qed

lemma register_all_f30:
  assumes "last_entry_of 0x30 (map snd xs) j"
  shows "interrupt_base (f30 (fst (register_all d c xs))) =
         c + interrupt_sources (take j (map snd xs))"
  using assms
proof (induction d c xs arbitrary: j rule: register_all.induct)
  case (1 d c)
  then show ?case by (simp add: last_entry_of_def)
next
  case (2 d c p e xs)
  show ?case
  proof (cases j)
    case 0
    with "2.prems" have e: "pdt_function_number e = 0x30"
      and no: "\<forall>i. 0 < i \<and> i < Suc (length xs) \<longrightarrow> pdt_function_number (map snd ((p, e) # xs) ! i) \<noteq> 0x30"
      by (simp_all add: last_entry_of_def)
    have "\<forall>x\<in>set xs. pdt_function_number (snd x) \<noteq> 0x30"
    proof
      fix x assume "x \<in> set xs"
      then obtain i where "i < length xs" "xs ! i = x" by (auto simp: in_set_conv_nth)
      with no[rule_format, of "Suc i"] show "pdt_function_number (snd x) \<noteq> 0x30" by auto
    qed
    from register_all_no_f30[OF this] e 0 show ?thesis
      by (simp add: rmi_register_function_def Let_def interrupt_sources_def)
  next
    case (Suc j')
    with "2.prems" have "last_entry_of 0x30 (map snd xs) j'"
      by (auto simp: last_entry_of_def)
    from "2.IH"[OF this] Suc show ?thesis by (simp add: interrupt_sources_def)
  qed
qed

lemma scan_pdt_tables:
  assumes "reader_idle data"
    and "\<forall>j. hw_output hdev j = output_report_size data"
    and "8 \<le> input_report_size data"
    and "pdt_pages tabs"
    and "inbound hdev = concat (map (map pdt_reply) tabs) @ rest"
  shows "\<exists>sn rb.
     read_addrs sn = scan_addrs 0 tabs \<and>
     rmi_scan_pdt hdev data =
       Some (0, hdev\<lparr>sent := sent hdev @ sn, inbound := rest\<rparr>,
             fst (register_all data 0 (functions_from 0 tabs))
               \<lparr>page := int (length tabs) - 1, report_buf := rb\<rparr>)"
proof -
  have "\<exists>sn rb.
     length rb = length (report_buf data) \<and> read_addrs sn = scan_addrs 0 tabs \<and>
     scan_pages hdev data 0 (replicate 6 0) 0 =
       Some (0, hdev\<lparr>sent := sent hdev @ sn, inbound := rest\<rparr>,
             fst (register_all data 0 (functions_from 0 tabs))
               \<lparr>page := (if tabs = [] then page data else int (0 + length tabs) - 1),
                report_buf := rb\<rparr>)"
    using assms by (intro scan_pages_tables) (auto simp: pdt_pages_def)
  then show ?thesis using assms(4) by (auto simp: rmi_scan_pdt_def pdt_pages_def)
qed

lemma example_pdt_pages: "pdt_pages example_pdt"
  by (simp add: pdt_pages_def page_table_def has_function_def end_of_pdt_def example_pdt_def
      RMI4_END_OF_PDT_def pdt_function_number_def)

lemma example_found:
  "functions_found example_pdt =
     [[0x10, 0x20, 0x30, 0x40, 0x02, 0x34], [0x50, 0x60, 0x70, 0x80, 0x04, 0x11]]"
  by (simp add: functions_found_def end_of_pdt_def example_pdt_def
      RMI4_END_OF_PDT_def pdt_function_number_def)

text \<open>
  Claim C6. Let the device answer every entry read with one well-formed delivery, and let
  \<open>tabs\<close> be the tables these answers form (\<open>pdt_pages\<close>). Then \<open>rmi_scan_pdt\<close> returns 0 and
  the addresses it reads are exactly \<open>scan_addrs 0 tabs\<close>: page 0 first and the pages in
  rising order, at most 256 of them; on page \<open>p\<close> the addresses \<open>256 p + 0xE9\<close>,
  \<open>256 p + 0xE3\<close>, ... downwards in steps of 6, at most 39 of them; the entry whose function
  number is 0x00 or 0xFF is the last one read on its page; and the page whose first entry
  is such an entry is the last page read. What follows in the inbound script is not
  consumed.
\<close>

theorem rmi_scan_pdt_order:
  assumes "reader_idle data"
    and "\<forall>j. hw_output hdev j = output_report_size data"
    and "8 \<le> input_report_size data"
    and "pdt_pages tabs"
    and "inbound hdev = concat (map (map pdt_reply) tabs) @ rest"
  shows "\<exists>hdev' data'.
     rmi_scan_pdt hdev data = Some (0, hdev', data') \<and>
     inbound hdev' = rest \<and>
     read_addrs (sent hdev') = read_addrs (sent hdev) @ scan_addrs 0 tabs"
proof -
  from scan_pdt_tables[OF assms] obtain sn rb where
    "read_addrs sn = scan_addrs 0 tabs"
    "rmi_scan_pdt hdev data =
       Some (0, hdev\<lparr>sent := sent hdev @ sn, inbound := rest\<rparr>,
             fst (register_all data 0 (functions_from 0 tabs))
               \<lparr>page := int (length tabs) - 1, report_buf := rb\<rparr>)"
    by blast
  then show ?thesis by simp
qed

text \<open>
  The example table: three entries are read on page 0 (0xE9, 0xE3, 0xDD), the third ends
  the table; one entry is read on page 1 (0x1E9), it ends the table and the scan.
\<close>

theorem rmi_scan_pdt_order_witness:
  "reader_idle example_data \<and> pdt_pages example_pdt \<and>
   (\<exists>hdev' data'.
      rmi_scan_pdt (example_hdev 8 (concat (map (map pdt_reply) example_pdt) @ [Timeout]))
        example_data = Some (0, hdev', data') \<and>
      inbound hdev' = [Timeout] \<and>
      read_addrs (sent hdev') = [0x00E9, 0x00E3, 0x00DD, 0x01E9])"
proof -
  let ?h = "example_hdev 8 (concat (map (map pdt_reply) example_pdt) @ [Timeout])"
  have acc: "\<forall>j. hw_output ?h j = output_report_size example_data"
    by (simp add: example_hdev_def example_sizes)
  have isz: "8 \<le> input_report_size example_data" by (simp add: example_sizes)
  have inb: "inbound ?h = concat (map (map pdt_reply) example_pdt) @ [Timeout]"
    by (simp add: example_hdev_def)
  have s: "sent ?h = []" by (simp add: example_hdev_def)
  have a: "scan_addrs 0 example_pdt = [0x00E9, 0x00E3, 0x00DD, 0x01E9]"
    by (simp add: example_pdt_def upt_rec)
  from rmi_scan_pdt_order[OF example_idle acc isz example_pdt_pages inb]
  show ?thesis using example_idle example_pdt_pages by (simp add: s a)
qed

text \<open>
  Claim C7. Under the conditions of claim C6, the interrupt base registered for the touch
  function (0x11) is the sum of the interrupt source counts of all functions found before
  its entry, on any page and whether recognised or not; the same holds for the button
  function (0x30). (When a function number occurs more than once, the last entry is the
  one that stays registered.)
\<close>

theorem rmi_scan_pdt_interrupt_base:
  assumes "reader_idle data"
    and "\<forall>j. hw_output hdev j = output_report_size data"
    and "8 \<le> input_report_size data"
    and "pdt_pages tabs"
    and "inbound hdev = concat (map (map pdt_reply) tabs) @ rest"
  shows "\<exists>hdev' data'.
     rmi_scan_pdt hdev data = Some (0, hdev', data') \<and>
     (\<forall>j. last_entry_of 0x11 (functions_found tabs) j \<longrightarrow>
        interrupt_base (f11 data') = interrupt_sources (take j (functions_found tabs))) \<and>
     (\<forall>j. last_entry_of 0x30 (functions_found tabs) j \<longrightarrow>
        interrupt_base (f30 data') = interrupt_sources (take j (functions_found tabs)))"
proof -
  from scan_pdt_tables[OF assms] obtain sn rb where
    r: "rmi_scan_pdt hdev data =
       Some (0, hdev\<lparr>sent := sent hdev @ sn, inbound := rest\<rparr>,
             fst (register_all data 0 (functions_from 0 tabs))
               \<lparr>page := int (length tabs) - 1, report_buf := rb\<rparr>)"
    by blast
  have a: "interrupt_base (f11 (fst (register_all data 0 (functions_from 0 tabs)))) =
      interrupt_sources (take j (functions_found tabs))"
    if "last_entry_of 0x11 (functions_found tabs) j" for j
    using register_all_f11[of "functions_from 0 tabs" j data 0] that
    by (simp add: functions_from_found)
  have b: "interrupt_base (f30 (fst (register_all data 0 (functions_from 0 tabs)))) =
      interrupt_sources (take j (functions_found tabs))"
    if "last_entry_of 0x30 (functions_found tabs) j" for j
    using register_all_f30[of "functions_from 0 tabs" j data 0] that
    by (simp add: functions_from_found)
  show ?thesis unfolding r using a b by simp
qed

text \<open>
  The example table: the unrecognised function 0x34 with 2 interrupt sources comes before
  the touch function, whose interrupt base is 2.
\<close>

theorem rmi_scan_pdt_interrupt_base_witness:
  "reader_idle example_data \<and> pdt_pages example_pdt \<and>
   last_entry_of 0x11 (functions_found example_pdt) 1 \<and>
   (\<exists>hdev' data'.
      rmi_scan_pdt (example_hdev 8 (concat (map (map pdt_reply) example_pdt) @ [Timeout]))
        example_data = Some (0, hdev', data') \<and>
      interrupt_base (f11 data') = 2)"
proof -
  let ?h = "example_hdev 8 (concat (map (map pdt_reply) example_pdt) @ [Timeout])"
  have acc: "\<forall>j. hw_output ?h j = output_report_size example_data"
    by (simp add: example_hdev_def example_sizes)
  have isz: "8 \<le> input_report_size example_data" by (simp add: example_sizes)
  have inb: "inbound ?h = concat (map (map pdt_reply) example_pdt) @ [Timeout]"
    by (simp add: example_hdev_def)
  have l: "last_entry_of 0x11 (functions_found example_pdt) 1"
    by (auto simp: last_entry_of_def example_found pdt_function_number_def)
  have i: "interrupt_sources (take 1 (functions_found example_pdt)) = 2"
    by (simp add: example_found interrupt_sources_def pdt_interrupt_source_count_def)
  from rmi_scan_pdt_interrupt_base[OF example_idle acc isz example_pdt_pages inb] l i
  show ?thesis using example_idle example_pdt_pages by auto
qed

section \<open>F11 population\<close>

lemma settings_simps [simp]:
  "settings (d\<lparr>page := x\<rparr>) = settings d"
  "settings (d\<lparr>report_buf := rb\<rparr>) = settings d"
  "settings (d\<lparr>flags := fl\<rparr>) = settings d"
  by (simp_all add: settings_def)

















end
